theory Spec2Isabelle
  imports Main "HOL-Library.Word"
begin

unbundle bit_operations_syntax

section \<open>ACL grants and file modes\<close>

text \<open>
  \<^verbatim>\<open>os.FileMode\<close> is a 32-bit unsigned integer. The permission constants the source
  writes in octal are given here in decimal: \<open>0400 = 256\<close>, \<open>0200 = 128\<close>,
  \<open>0600 = 384\<close>, \<open>0440 = 288\<close>, \<open>0220 = 144\<close>, \<open>0660 = 432\<close>, \<open>0444 = 292\<close>,
  \<open>0222 = 146\<close>, \<open>0666 = 438\<close>, \<open>0755 = 493\<close>, \<open>0644 = 420\<close>; \<^verbatim>\<open>os.ModeDir\<close> is
  bit 31.
\<close>

type_synonym FileMode = "32 word"

definition ModeDir :: FileMode where
  "ModeDir = 2147483648"

text \<open>
  The SDK's \<^verbatim>\<open>Owner\<close>, \<^verbatim>\<open>Grantee\<close> and \<^verbatim>\<open>Grant\<close> structs hold pointers; a nil pointer
  is \<open>None\<close>.
\<close>

record Owner =
  Owner_ID :: "string option"

record Grantee =
  Grantee_ID :: "string option"
  Grantee_URI :: "string option"

record Grant =
  Grant_Grantee :: "Grantee option"
  Grant_Permission :: "string option"

definition uriAuthenticatedUsers :: string where
  "uriAuthenticatedUsers = ''http://acs.amazonaws.com/groups/global/AuthenticatedUsers''"

definition uriAllUsers :: string where
  "uriAllUsers = ''http://acs.amazonaws.com/groups/global/AllUsers''"

text \<open>
  The inner \<^verbatim>\<open>switch *g.Permission\<close>: dereferencing a nil permission panics
  (\<open>None\<close>); a permission other than the three named ones leaves \<open>v\<close> as it is.
\<close>

definition permSwitch :: "string option \<Rightarrow> FileMode \<Rightarrow> FileMode \<Rightarrow> FileMode \<Rightarrow> FileMode \<Rightarrow> FileMode option" where
  "permSwitch perm v r w f =
     (case perm of
        None \<Rightarrow> None
      | Some p \<Rightarrow>
          if p = ''READ'' then Some (v OR r)
          else if p = ''WRITE'' then Some (v OR w)
          else if p = ''FULL_CONTROL'' then Some (v OR f)
          else Some v)"

text \<open>The \<^verbatim>\<open>else if g.Grantee.URI != nil\<close> branch of the loop body.\<close>

definition uriBranch :: "Grantee \<Rightarrow> string option \<Rightarrow> FileMode \<Rightarrow> FileMode option" where
  "uriBranch gr perm v =
     (case Grantee_URI gr of
        None \<Rightarrow> Some v
      | Some uri \<Rightarrow>
          if uri = uriAuthenticatedUsers then permSwitch perm v 288 144 432
          else if uri = uriAllUsers then permSwitch perm v 292 146 438
          else Some v)"

text \<open>
  One iteration of the loop of \<^verbatim>\<open>aclToMode\<close>. The condition
  \<^verbatim>\<open>g.Grantee.ID != nil && *g.Grantee.ID == *owner.ID\<close> dereferences the owner only
  when the grantee has an ID; a nil owner or owner ID panics there.
\<close>

definition grantStep :: "Owner option \<Rightarrow> FileMode \<Rightarrow> Grant \<Rightarrow> FileMode option" where
  "grantStep owner v g =
     (case Grant_Grantee g of
        None \<Rightarrow> Some v
      | Some gr \<Rightarrow>
          (case Grantee_ID gr of
             None \<Rightarrow> uriBranch gr (Grant_Permission g) v
           | Some gid \<Rightarrow>
               (case owner of
                  None \<Rightarrow> None
                | Some ow \<Rightarrow>
                    (case Owner_ID ow of
                       None \<Rightarrow> None
                     | Some oid \<Rightarrow>
                         if gid = oid then permSwitch (Grant_Permission g) v 256 128 384
                         else uriBranch gr (Grant_Permission g) v))))"

fun aclLoop :: "Owner option \<Rightarrow> Grant list \<Rightarrow> FileMode \<Rightarrow> FileMode option" where
  "aclLoop owner [] v = Some v"
| "aclLoop owner (g # gs) v =
     (case grantStep owner v g of
        None \<Rightarrow> None
      | Some v' \<Rightarrow> aclLoop owner gs v')"

definition aclToMode :: "Owner option \<Rightarrow> Grant list \<Rightarrow> FileMode option" where
  "aclToMode owner grants = aclLoop owner grants 0"

text \<open>
  The per-grant contribution as the specification words it: owner bits for a grant whose
  grantee ID is the owner's, owner and group bits for the AuthenticatedUsers URI, all bits
  for the AllUsers URI, nothing for any other grant.
\<close>

definition permBits :: "string option \<Rightarrow> FileMode \<Rightarrow> FileMode \<Rightarrow> FileMode \<Rightarrow> FileMode" where
  "permBits perm r w f =
     (if perm = Some ''READ'' then r
      else if perm = Some ''WRITE'' then w
      else if perm = Some ''FULL_CONTROL'' then f
      else 0)"

definition specContribution :: "string \<Rightarrow> Grant \<Rightarrow> FileMode" where
  "specContribution oid g =
     (case Grant_Grantee g of
        None \<Rightarrow> 0
      | Some gr \<Rightarrow>
          if Grantee_ID gr = Some oid then permBits (Grant_Permission g) 256 128 384
          else if Grantee_URI gr = Some uriAuthenticatedUsers then permBits (Grant_Permission g) 288 144 432
          else if Grantee_URI gr = Some uriAllUsers then permBits (Grant_Permission g) 292 146 438
          else 0)"

definition specMode :: "string \<Rightarrow> Grant list \<Rightarrow> FileMode" where
  "specMode oid grants = foldr (\<lambda>g m. specContribution oid g OR m) grants 0"

section \<open>Common types: errors, panics, paths, file information\<close>

text \<open>
  Errors are values. \<open>ErrUpstream\<close> stands for any error handed back by a collaborator
  (the object store SDK, the memory pool, \<^verbatim>\<open>castInt64ToInt\<close>); the others are the errors
  the source itself creates (\<^verbatim>\<open>fmt.Errorf\<close>, \<^verbatim>\<open>io.EOF\<close>, \<^verbatim>\<open>os.ErrNotExist\<close>).
\<close>

datatype error =
    ErrOutOfRange
  | ErrNotExist
  | ErrEOF
  | ErrUnexpectedEOF
  | ErrReadCanceled
  | ErrFileTooLarge int
  | ErrEnqueueCancelled
  | ErrPendingParts int
  | ErrIncompletePart int
  | ErrUpstream string

text \<open>
  A Go function either returns or panics (nil dereference, index or slice out of range,
  division by zero); \<open>Blocked\<close> is a call that waits forever.
\<close>

datatype 'a go = Panic | Blocked | Ret 'a

type_synonym Time = int

text \<open>
  Times are seconds since the Unix epoch: \<^verbatim>\<open>time.Unix(1, 0)\<close> is \<open>1\<close> and the zero
  \<^verbatim>\<open>time.Time{}\<close> (1 January of year 1) is \<open>-62135596800\<close>.
\<close>

definition zeroTime :: Time where
  "zeroTime = - 62135596800"

definition timeUnix1 :: Time where
  "timeUnix1 = 1"

record ObjectFileInfo =
  ofi_Name :: string
  ofi_LastModified :: Time
  ofi_Size :: int
  ofi_Mode :: FileMode

definition IsDir :: "ObjectFileInfo \<Rightarrow> bool" where
  "IsDir ofi = (ofi_Mode ofi AND ModeDir \<noteq> 0)"

type_synonym Path = "string list"

text \<open>
  Modelled from the spec: the \<^verbatim>\<open>Path\<close> type is not among the source files. A path is
  the sequence of its non-empty segments; \<^verbatim>\<open>IsRoot\<close> holds iff there is no segment,
  \<^verbatim>\<open>Base\<close> is the last segment or the empty string for the root, and \<^verbatim>\<open>String\<close> joins
  the segments with \<open>/\<close>, with no leading and no trailing slash.
\<close>

definition Path_IsRoot :: "Path \<Rightarrow> bool" where
  "Path_IsRoot p = (length p = 0)"

definition Path_Base :: "Path \<Rightarrow> string" where
  "Path_Base p = (if p = [] then [] else last p)"

fun Path_String :: "Path \<Rightarrow> string" where
  "Path_String [] = []"
| "Path_String [x] = x"
| "Path_String (x # y # ys) = x @ ''/'' @ Path_String (y # ys)"

record PhantomObjectInfo =
  ph_Key :: Path
  ph_LastModified :: Time
  ph_Size :: int

section \<open>Object store messages\<close>

record GetObjectAclOutput =
  acl_Owner :: "Owner option"
  acl_Grants :: "Grant list"

record HeadObjectOutput =
  head_ContentLength :: "int option"
  head_LastModified :: "Time option"

record CommonPrefix =
  cp_Prefix :: "string option"

record S3Object =
  obj_Key :: "string option"
  obj_LastModified :: "Time option"
  obj_Size :: "int option"

record ListObjectsV2Input =
  in_Prefix :: string
  in_MaxKeys :: int
  in_Delimiter :: string
  in_ContinuationToken :: "string option"

record ListObjectsV2Output =
  out_CommonPrefixes :: "CommonPrefix list"
  out_Contents :: "S3Object list"
  out_NextContinuationToken :: "string option"

section \<open>The stat resolver\<close>

text \<open>
  What \<^verbatim>\<open>S3ObjectStat.ListAt\<close> gets from its collaborators, none of which is among the
  source files: the result of \<^verbatim>\<open>castInt64ToInt\<close>, the phantom map's answer for a key
  (already copied by \<^verbatim>\<open>GetOne\<close>), and the object store's answers to the three requests.
\<close>

record StatEnv =
  st_castInt64ToInt :: "int \<Rightarrow> error + int"
  st_PhantomGet :: "Path \<Rightarrow> PhantomObjectInfo option"
  st_GetObjectAcl :: "string \<Rightarrow> error + GetObjectAclOutput"
  st_HeadObject :: "string \<Rightarrow> error + HeadObjectOutput"
  st_ListObjectsV2 :: "ListObjectsV2Input \<Rightarrow> error + ListObjectsV2Output"

record S3ObjectStat =
  sos_Key :: Path
  sos_Root :: bool

definition dirInfo :: "string \<Rightarrow> Time \<Rightarrow> ObjectFileInfo" where
  "dirInfo name t =
     \<lparr>ofi_Name = name, ofi_LastModified = t, ofi_Size = 0, ofi_Mode = 493 OR ModeDir\<rparr>"

definition phantomInfo :: "PhantomObjectInfo \<Rightarrow> ObjectFileInfo" where
  "phantomInfo ph =
     \<lparr>ofi_Name = Path_Base (ph_Key ph), ofi_LastModified = ph_LastModified ph,
      ofi_Size = ph_Size ph, ofi_Mode = 384\<rparr>"

text \<open>
  The branch taken when \<^verbatim>\<open>GetObjectAcl\<close> succeeded: \<^verbatim>\<open>HeadObject\<close> is called, the mode comes
  from \<open>aclToMode\<close>, and size and modification time are filled in only when the HEAD
  succeeded (both fields are dereferenced there). Without it they keep Go's zero values.
\<close>

definition statObject :: "StatEnv \<Rightarrow> S3ObjectStat \<Rightarrow> string \<Rightarrow> GetObjectAclOutput \<Rightarrow> ObjectFileInfo go" where
  "statObject env sos key out =
     (let headOut = st_HeadObject env key in
      case aclToMode (acl_Owner out) (acl_Grants out) of
        None \<Rightarrow> Panic
      | Some mode \<Rightarrow>
          (case headOut of
             Inl e \<Rightarrow>
               Ret \<lparr>ofi_Name = Path_Base (sos_Key sos), ofi_LastModified = zeroTime,
                    ofi_Size = 0, ofi_Mode = mode\<rparr>
           | Inr h \<Rightarrow>
               (case head_ContentLength h of
                  None \<Rightarrow> Panic
                | Some n \<Rightarrow>
                    (case head_LastModified h of
                       None \<Rightarrow> Panic
                     | Some t \<Rightarrow>
                         Ret \<lparr>ofi_Name = Path_Base (sos_Key sos), ofi_LastModified = t,
                              ofi_Size = n, ofi_Mode = mode\<rparr>))))"

definition statProbeInput :: "string \<Rightarrow> ListObjectsV2Input" where
  "statProbeInput key =
     \<lparr>in_Prefix = key, in_MaxKeys = 10000, in_Delimiter = ''/'', in_ContinuationToken = None\<rparr>"

definition stat_ListAt ::
  "StatEnv \<Rightarrow> S3ObjectStat \<Rightarrow> ObjectFileInfo list \<Rightarrow> int \<Rightarrow> (ObjectFileInfo list \<times> int \<times> error option) go" where
  "stat_ListAt env sos result off =
     (case st_castInt64ToInt env off of
        Inl err \<Rightarrow> Ret (result, 0, Some err)
      | Inr off' \<Rightarrow>
          if length result = 0 then Ret (result, 0, None)
          else if off' > 0 then Ret (result, 0, Some ErrOutOfRange)
          else if Path_IsRoot (sos_Key sos) then Ret (result[0 := dirInfo ''/'' zeroTime], 1, None)
          else
            (case st_PhantomGet env (sos_Key sos) of
               Some phInfo \<Rightarrow> Ret (result[0 := phantomInfo phInfo], 1, None)
             | None \<Rightarrow>
                 (let key = Path_String (sos_Key sos) in
                  case st_GetObjectAcl env key of
                    Inr out \<Rightarrow>
                      (case statObject env sos key out of
                         Ret objInfo \<Rightarrow> Ret (result[0 := objInfo], 1, None)
                       | Panic \<Rightarrow> Panic
                       | Blocked \<Rightarrow> Blocked)
                  | Inl err \<Rightarrow>
                      (case st_ListObjectsV2 env (statProbeInput key) of
                         Inl err' \<Rightarrow> Ret (result, 0, Some ErrNotExist)
                       | Inr out \<Rightarrow>
                           if \<not> sos_Root sos \<and> length (out_CommonPrefixes out) = 0
                           then Ret (result, 0, Some ErrNotExist)
                           else Ret (result[0 := dirInfo (Path_Base (sos_Key sos)) zeroTime], 1, None)))))"

section \<open>The directory lister\<close>

text \<open>
  Go's \<^verbatim>\<open>path.Base\<close>: the last element of a slash-separated path, after trailing slashes
  are removed; \<open>.\<close> for the empty path and \<open>/\<close> for a path of slashes only.
\<close>

definition path_Base :: "string \<Rightarrow> string" where
  "path_Base p =
     (if p = [] then ''.''
      else
        let stripped = rev (dropWhile (\<lambda>c. c = CHR ''/'') (rev p));
            elem = rev (takeWhile (\<lambda>c. c \<noteq> CHR ''/'') (rev stripped))
        in if elem = [] then ''/'' else elem)"

text \<open>
  \<^verbatim>\<open>copy(dst[i:i+n], src[s:s+n])\<close> for ranges that lie inside both slices.
\<close>

definition copySlice :: "'a list \<Rightarrow> nat \<Rightarrow> nat \<Rightarrow> 'a list \<Rightarrow> nat \<Rightarrow> 'a list" where
  "copySlice dst i n src s = take i dst @ take n (drop s src) @ drop (i + n) dst"

record ListerEnv =
  ls_castInt64ToInt :: "int \<Rightarrow> error + int"
  ls_PhantomList :: "Path \<Rightarrow> PhantomObjectInfo list"
  ls_ListObjectsV2 :: "ListObjectsV2Input \<Rightarrow> error + ListObjectsV2Output"

record S3ObjectLister =
  sol_Prefix :: Path
  sol_Lookback :: int
  sol_spoolOffset :: int
  sol_spooled :: "ObjectFileInfo list"
  sol_continuation :: "string option"
  sol_noMore :: bool

text \<open>
  The entries made from one page. Each \<^verbatim>\<open>*cPfx.Prefix\<close>, \<^verbatim>\<open>*obj.Key\<close>,
  \<^verbatim>\<open>*obj.LastModified\<close> and \<^verbatim>\<open>*obj.Size\<close> is dereferenced unchecked: a nil one panics
  (\<open>None\<close>).
\<close>

fun commonPrefixInfos :: "CommonPrefix list \<Rightarrow> ObjectFileInfo list option" where
  "commonPrefixInfos [] = Some []"
| "commonPrefixInfos (cPfx # rest) =
     (case cp_Prefix cPfx of
        None \<Rightarrow> None
      | Some p \<Rightarrow>
          (case commonPrefixInfos rest of
             None \<Rightarrow> None
           | Some infos \<Rightarrow> Some (dirInfo (path_Base p) timeUnix1 # infos)))"

definition fileInfo :: "string \<Rightarrow> Time \<Rightarrow> int \<Rightarrow> ObjectFileInfo" where
  "fileInfo key t n =
     \<lparr>ofi_Name = path_Base key, ofi_LastModified = t, ofi_Size = n, ofi_Mode = 420\<rparr>"

fun contentInfos :: "S3Object list \<Rightarrow> ObjectFileInfo list option" where
  "contentInfos [] = Some []"
| "contentInfos (obj # rest) =
     (case (obj_Key obj, obj_LastModified obj, obj_Size obj) of
        (Some key, Some t, Some n) \<Rightarrow>
          (case contentInfos rest of
             None \<Rightarrow> None
           | Some infos \<Rightarrow> Some (fileInfo key t n # infos))
      | _ \<Rightarrow> None)"

text \<open>The entries put in front of the first page: \<open>.\<close>, \<open>..\<close> and the phantom uploads.\<close>

definition initialEntries :: "ListerEnv \<Rightarrow> S3ObjectLister \<Rightarrow> ObjectFileInfo list" where
  "initialEntries env sol =
     (if sol_continuation sol = None
      then [dirInfo ''.'' timeUnix1, dirInfo ''..'' timeUnix1]
           @ map phantomInfo (ls_PhantomList env (sol_Prefix sol))
      else [])"

text \<open>
  \<^verbatim>\<open>if s <= len(sol.spooled) && s >= sol.Lookback { ... }\<close>: the spool keeps its last
  \<open>Lookback\<close> entries before \<open>s\<close>. Slicing from beyond the length panics.
\<close>

definition compactSpool :: "S3ObjectLister \<Rightarrow> int \<Rightarrow> (S3ObjectLister \<times> int) go" where
  "compactSpool sol s =
     (if s \<le> int (length (sol_spooled sol)) \<and> s \<ge> sol_Lookback sol then
        if s - sol_Lookback sol > int (length (sol_spooled sol)) then Panic
        else Ret (sol\<lparr>sol_spooled := drop (nat (s - sol_Lookback sol)) (sol_spooled sol),
                      sol_spoolOffset := sol_spoolOffset sol + (s - sol_Lookback sol)\<rparr>,
                  sol_Lookback sol)
      else Ret (sol, s))"

definition listRequest :: "S3ObjectLister \<Rightarrow> ListObjectsV2Input" where
  "listRequest sol =
     (let prefix = Path_String (sol_Prefix sol)
      in \<lparr>in_Prefix = (if prefix \<noteq> [] then prefix @ ''/'' else prefix), in_MaxKeys = 10000,
          in_Delimiter = ''/'', in_ContinuationToken = sol_continuation sol\<rparr>)"

text \<open>
  The second half of \<^verbatim>\<open>S3ObjectLister.ListAt\<close>, from the compaction on: \<open>i\<close> entries are
  already in \<open>result\<close> and \<open>s\<close> is the position in the spool of the next one. The common
  prefixes of a page are spooled only while \<^verbatim>\<open>sol.continuation == nil\<close>.
\<close>

definition listFetch ::
  "ListerEnv \<Rightarrow> S3ObjectLister \<Rightarrow> ObjectFileInfo list \<Rightarrow> int \<Rightarrow> int \<Rightarrow>
   (S3ObjectLister \<times> ObjectFileInfo list \<times> int \<times> error option) go" where
  "listFetch env sol result i s0 =
     (case compactSpool sol s0 of
        Panic \<Rightarrow> Panic
      | Blocked \<Rightarrow> Blocked
      | Ret (sol1, s) \<Rightarrow>
          (let sol2 = sol1\<lparr>sol_spooled := sol_spooled sol1 @ initialEntries env sol1\<rparr> in
           case ls_ListObjectsV2 env (listRequest sol2) of
             Inl err \<Rightarrow> Ret (sol2, result, i, Some err)
           | Inr out \<Rightarrow>
               (case (if sol_continuation sol2 = None
                      then commonPrefixInfos (out_CommonPrefixes out) else Some []) of
                  None \<Rightarrow> Panic
                | Some dirs \<Rightarrow>
                    (case contentInfos (out_Contents out) of
                       None \<Rightarrow> Panic
                     | Some files \<Rightarrow>
                         (let sol3 = sol2\<lparr>sol_spooled := sol_spooled sol2 @ dirs @ files,
                                          sol_continuation := out_NextContinuationToken out,
                                          sol_noMore := (sol_noMore sol2 \<or> out_NextContinuationToken out = None)\<rparr>;
                              avail = int (length (sol_spooled sol3)) - s;
                              room = int (length result) - i;
                              n = (if avail > room then room else avail);
                              err = (if avail > room then None
                                     else if sol_noMore sol3 then Some ErrEOF else None)
                          in if n < 0 \<or> i < 0 \<or> s < 0 then Panic
                             else Ret (sol3,
                                       copySlice result (nat i) (nat n) (sol_spooled sol3) (nat s),
                                       i + n, err))))))"

definition lister_ListAt ::
  "ListerEnv \<Rightarrow> S3ObjectLister \<Rightarrow> ObjectFileInfo list \<Rightarrow> int \<Rightarrow>
   (S3ObjectLister \<times> ObjectFileInfo list \<times> int \<times> error option) go" where
  "lister_ListAt env sol result off =
     (case ls_castInt64ToInt env off of
        Inl err \<Rightarrow> Ret (sol, result, 0, Some err)
      | Inr off' \<Rightarrow>
          if off' < sol_spoolOffset sol then Ret (sol, result, 0, Some ErrOutOfRange)
          else
            (let s0 = off' - sol_spoolOffset sol;
                 len = int (length (sol_spooled sol));
                 n = (if int (length result) > len - s0 then len - s0 else int (length result));
                 result1 = (if s0 < len
                            then copySlice result 0 (nat n) (sol_spooled sol) (nat s0)
                            else result);
                 i = (if s0 < len then n else 0);
                 s = (if s0 < len then len else s0)
             in if i \<ge> int (length result) then Ret (sol, result1, i, None)
                else if sol_noMore sol then
                  (if i = 0 then Ret (sol, result1, 0, Some ErrEOF) else Ret (sol, result1, i, None))
                else listFetch env sol result1 i s))"

section \<open>The random-access reader\<close>

text \<open>
  The body of the GET is a one-pass stream; \<open>oor_Body\<close> holds the bytes it has not
  delivered yet. \<^verbatim>\<open>io.ReadFull\<close> takes \<open>want\<close> bytes from it: all of them with no
  error, or what is left with \<^verbatim>\<open>io.ErrUnexpectedEOF\<close>, or nothing with \<^verbatim>\<open>io.EOF\<close>; asked
  for no byte it returns at once. Transport failures of the stream are not modelled.
\<close>

definition ReadFull :: "string \<Rightarrow> nat \<Rightarrow> string \<times> error option \<times> string" where
  "ReadFull body want =
     (if want = 0 then ([], None, body)
      else if want \<le> length body then (take want body, None, drop want body)
      else if body = [] then ([], Some ErrEOF, [])
      else (body, Some ErrUnexpectedEOF, []))"

text \<open>
  Modelled from the spec: \<^verbatim>\<open>IsEOF\<close> is not among the source files. The reader reads with
  a full-read whose short read is tolerated only at the end of the body, and the end of
  the body sets \<^verbatim>\<open>noMore\<close>: so \<^verbatim>\<open>IsEOF\<close> holds of \<^verbatim>\<open>io.EOF\<close> and of the short-read
  error \<^verbatim>\<open>io.ErrUnexpectedEOF\<close>.
\<close>

definition IsEOF :: "error option \<Rightarrow> bool" where
  "IsEOF err = (err = Some ErrEOF \<or> err = Some ErrUnexpectedEOF)"

text \<open>
  \<open>rd_ctxDone\<close> tells which case the \<^verbatim>\<open>select\<close> of \<^verbatim>\<open>ReadAt\<close> takes: the cancelled
  context or the result of the read.
\<close>

record ReaderEnv =
  rd_castInt64ToInt :: "int \<Rightarrow> error + int"
  rd_ctxDone :: bool

record S3GetObjectOutputReader =
  oor_Body :: string
  oor_Lookback :: int
  oor_MinChunkSize :: int
  oor_spooled :: string
  oor_spoolOffset :: int
  oor_noMore :: bool

text \<open>
  The second half of \<^verbatim>\<open>S3GetObjectOutputReader.ReadAt\<close>: \<open>i\<close> bytes are in \<open>buf\<close>
  already, \<open>r\<close> are still wanted, and \<open>s\<close> is the position in the spool of the next one.
  The value returned after the read is \<^verbatim>\<open>be - s\<close>.
\<close>

definition readFetch ::
  "ReaderEnv \<Rightarrow> S3GetObjectOutputReader \<Rightarrow> string \<Rightarrow> int \<Rightarrow> int \<Rightarrow> int \<Rightarrow>
   (S3GetObjectOutputReader \<times> string \<times> int \<times> error option) go" where
  "readFetch env oor buf i s0 r =
     (let len0 = int (length (oor_spooled oor));
          compact = (s0 \<le> len0 \<and> s0 \<ge> oor_Lookback oor)
      in if compact \<and> s0 - oor_Lookback oor > len0 then Panic
         else
           (let oor1 = (if compact
                        then oor\<lparr>oor_spooled := drop (nat (s0 - oor_Lookback oor)) (oor_spooled oor),
                                 oor_spoolOffset := oor_spoolOffset oor + (s0 - oor_Lookback oor)\<rparr>
                        else oor);
                s = (if compact then oor_Lookback oor else s0);
                len = int (length (oor_spooled oor1));
                e = (if len + oor_MinChunkSize oor1 < s + r then s + r
                     else len + oor_MinChunkSize oor1)
            in if e < len then Panic
               else if rd_ctxDone env then Ret (oor1, buf, 0, Some ErrReadCanceled)
               else
                 (case ReadFull (oor_Body oor1) (nat (e - len)) of
                    (got, err, body') \<Rightarrow>
                      (let oor2 = oor1\<lparr>oor_Body := body',
                                       oor_spooled := oor_spooled oor1 @ got,
                                       oor_noMore := (oor_noMore oor1 \<or> IsEOF err)\<rparr>;
                           e' = len + int (length got)
                       in if s < e' then
                            (let be = (if e' > s + r then s + r else e')
                             in if s < 0 \<or> i < 0 then Panic
                                else Ret (oor2,
                                          copySlice buf (nat i) (nat (be - s)) (oor_spooled oor2) (nat s),
                                          be - s, None))
                          else Ret (oor2, buf, 0, Some ErrEOF)))))"

definition reader_ReadAt ::
  "ReaderEnv \<Rightarrow> S3GetObjectOutputReader \<Rightarrow> string \<Rightarrow> int \<Rightarrow>
   (S3GetObjectOutputReader \<times> string \<times> int \<times> error option) go" where
  "reader_ReadAt env oor buf off =
     (case rd_castInt64ToInt env off of
        Inl err \<Rightarrow> Ret (oor, buf, 0, Some err)
      | Inr off' \<Rightarrow>
          if off' < oor_spoolOffset oor then Ret (oor, buf, 0, Some ErrOutOfRange)
          else
            (let s0 = off' - oor_spoolOffset oor;
                 len = int (length (oor_spooled oor));
                 r0 = int (length buf);
                 n = (if r0 > len - s0 then len - s0 else r0);
                 buf1 = (if s0 < len
                         then copySlice buf 0 (nat n) (oor_spooled oor) (nat s0)
                         else buf);
                 i = (if s0 < len then n else 0);
                 s = (if s0 < len then s0 + n else s0);
                 r = (if s0 < len then r0 - n else r0)
             in if r = 0 then Ret (oor, buf1, i, None)
                else if oor_noMore oor then
                  (if i = 0 then Ret (oor, buf1, 0, Some ErrEOF) else Ret (oor, buf1, i, None))
                else readFetch env oor buf1 i s r))"

section \<open>The multipart upload writer\<close>

subsection \<open>Go integers\<close>

text \<open>
  \<^verbatim>\<open>int64\<close> addition wraps around, and Go's \<^verbatim>\<open>/\<close> and \<^verbatim>\<open>%\<close> truncate towards zero.
  \<^verbatim>\<open>int\<close> is taken as 64 bits wide, so that \<^verbatim>\<open>int(off / partSize)\<close> keeps the value.
\<close>

definition wrap64 :: "int \<Rightarrow> int" where
  "wrap64 x = (x + 2 ^ 63) mod 2 ^ 64 - 2 ^ 63"

definition quot :: "int \<Rightarrow> int \<Rightarrow> int" where
  "quot a b = (if (a < 0) = (b < 0) then \<bar>a\<bar> div \<bar>b\<bar> else - (\<bar>a\<bar> div \<bar>b\<bar>))"

definition rem :: "int \<Rightarrow> int \<Rightarrow> int" where
  "rem a b = a - quot a b * b"

subsection \<open>Parts\<close>

datatype S3PartUploadState =
    S3PartUploadStateAdding
  | S3PartUploadStateFull
  | S3PartUploadStateSent
  | S3PartUploadErrorSending
  | S3PartUploadCancelled

text \<open>The values \<^verbatim>\<open>iota\<close> gives the states; the source compares them with \<^verbatim>\<open><\<close>.\<close>

fun stateNum :: "S3PartUploadState \<Rightarrow> nat" where
  "stateNum S3PartUploadStateAdding = 0"
| "stateNum S3PartUploadStateFull = 1"
| "stateNum S3PartUploadStateSent = 2"
| "stateNum S3PartUploadErrorSending = 3"
| "stateNum S3PartUploadCancelled = 4"

type_synonym OffsetRanges = "bool list"

text \<open>
  Modelled from the spec: \<^verbatim>\<open>util.OffsetRanges\<close> is not among the source files. It tracks
  which byte ranges of a buffer of a fixed size are filled: \<^verbatim>\<open>Add(s, e)\<close> merges the range
  \<open>[s, e)\<close> into the filled ones, \<^verbatim>\<open>GetMaxValidOffset\<close> is the highest \<open>e\<close> with
  \<open>[0, e)\<close> filled, or \<open>-1\<close> when offset 0 is not filled, and \<^verbatim>\<open>IsFull\<close> holds iff that
  is the size. The filled set is kept here as one flag for each offset of the buffer.
\<close>

definition NewOffsetRanges :: "int \<Rightarrow> OffsetRanges" where
  "NewOffsetRanges sz = replicate (nat sz) False"

definition OffsetRanges_Add :: "OffsetRanges \<Rightarrow> int \<Rightarrow> int \<Rightarrow> OffsetRanges" where
  "OffsetRanges_Add r s e = map (\<lambda>(k, b). b \<or> (s \<le> int k \<and> int k < e)) (enumerate 0 r)"

definition GetMaxValidOffset :: "OffsetRanges \<Rightarrow> int" where
  "GetMaxValidOffset r = (let n = length (takeWhile (\<lambda>b. b) r) in if n = 0 then - 1 else int n)"

definition IsFull :: "OffsetRanges \<Rightarrow> bool" where
  "IsFull r = (GetMaxValidOffset r = int (length r))"

record S3PartToUpload =
  part_content :: string
  part_partNumber :: int
  part_o :: OffsetRanges
  part_state :: S3PartUploadState

definition getContent :: "S3PartToUpload \<Rightarrow> error + string" where
  "getContent part =
     (let fin = GetMaxValidOffset (part_o part)
      in if fin = - 1 then Inl (ErrIncompletePart (part_partNumber part))
         else Inr (take (nat fin) (part_content part)))"

text \<open>
  \<^verbatim>\<open>part.copy(buf, start, end)\<close>: slicing \<^verbatim>\<open>part.content[start:end]\<close> panics outside the
  buffer.
\<close>

definition part_copy :: "S3PartToUpload \<Rightarrow> string \<Rightarrow> int \<Rightarrow> int \<Rightarrow> S3PartToUpload go" where
  "part_copy part buf start fin =
     (if start < 0 \<or> fin < start \<or> fin > int (length (part_content part)) then Panic
      else Ret (part\<lparr>part_content :=
                        copySlice (part_content part) (nat start)
                          (min (nat (fin - start)) (length buf)) buf 0,
                      part_o := OffsetRanges_Add (part_o part) start fin\<rparr>))"

definition isFull :: "S3PartToUpload \<Rightarrow> bool" where
  "isFull part = IsFull (part_o part)"

subsection \<open>The writer and its surroundings\<close>

record CompletedPart =
  cp_ETag :: "string option"
  cp_PartNumber :: int

text \<open>
  The calls the writer and the upload workers make to their collaborators, in the order
  they are made. \<open>CreateMultipartUpload\<close> carries the upload ID it was given, if any.
\<close>

datatype event =
    PutObject string
  | CreateMultipartUpload "string option"
  | UploadPart int string
  | CompleteMultipartUpload "CompletedPart option list"
  | AbortMultipartUpload string
  | PoolGet
  | PoolPut int
  | PhantomRemoveByInfoPtr nat

text \<open>
  The answers of the collaborators; each may depend on all the calls made so far.
  \<open>w_ctxDone\<close> tells whether the \<^verbatim>\<open>select\<close> of \<^verbatim>\<open>enqueueUpload\<close> takes the cancelled
  context rather than the send on the upload channel.
\<close>

record WriterEnv =
  w_PutObject :: "event list \<Rightarrow> string \<Rightarrow> error option"
  w_CreateMultipartUpload :: "event list \<Rightarrow> error + string option"
  w_UploadPart :: "event list \<Rightarrow> int \<Rightarrow> string \<Rightarrow> error + string option"
  w_CompleteMultipartUpload :: "event list \<Rightarrow> CompletedPart option list \<Rightarrow> error option"
  w_PoolGet :: "event list \<Rightarrow> error + string"
  w_ctxDone :: "event list \<Rightarrow> bool"

text \<open>
  The writer's own fields, and what it shares with the rest of the process: the counter of
  its wait group, the parts a worker has received from the upload channel and not yet
  handled (\<open>u_inflight\<close>, by index in \<open>u_parts\<close>), the phantom map (key and pointer of each
  entry), and the calls made so far. \<open>u_Info\<close> is the pointer of the writer's phantom
  entry and \<open>u_InfoSize\<close> the size recorded there.

  The mutexes. The source guards the writer with \<^verbatim>\<open>u.mtx\<close> and each part with its own
  \<^verbatim>\<open>part.mtx\<close>. A worker holds the mutex of its part for the whole of \<^verbatim>\<open>uploadPart\<close>,
  and when the upload has failed it asks for \<^verbatim>\<open>u.mtx\<close> in \<^verbatim>\<open>seterr\<close> while it still holds
  it. \<^verbatim>\<open>closePartsInStateAdding\<close> is only called with \<^verbatim>\<open>u.mtx\<close> held and asks for the
  mutex of every part. \<open>u_inSeterr\<close> lists the workers that hold the mutex of a part (by
  index in \<open>u_parts\<close>) and wait in \<^verbatim>\<open>seterr\<close> for \<^verbatim>\<open>u.mtx\<close>, each with the error it is about
  to store: such a worker and a caller of \<^verbatim>\<open>closePartsInStateAdding\<close> wait for each other
  for ever. Every other wait for a mutex is for one whose holder can go on and release
  it, and is not modelled: the calls on a writer are taken one at a time, and a worker
  runs either in one step (\<open>uploadPart\<close>, below) or, when a call on the writer comes in
  between, in the two steps \<open>uploadPart_begin\<close> and \<open>uploadPart_end\<close>.
\<close>

record S3MultipartUploadWriter =
  u_MaxObjectSize :: int
  u_BufSize :: nat
  u_Info :: nat
  u_InfoSize :: int
  u_completedParts :: "CompletedPart option list"
  u_parts :: "S3PartToUpload option list"
  u_multiPartUploadID :: "string option"
  u_err :: "error option"
  u_uploadGroup :: nat
  u_inflight :: "nat list"
  u_inSeterr :: "(nat \<times> error) list"
  u_PhantomObjectMap :: "(string \<times> nat) list"
  u_calls :: "event list"

text \<open>
  Modelled from the spec: the phantom map is not among the source files.
  \<^verbatim>\<open>RemoveByInfoPtr(info)\<close> removes the entry of that info, whatever its key is now.
\<close>

definition RemoveByInfoPtr :: "(string \<times> nat) list \<Rightarrow> nat \<Rightarrow> (string \<times> nat) list" where
  "RemoveByInfoPtr m info = filter (\<lambda>(k, i). i \<noteq> info) m"

definition call :: "event \<Rightarrow> S3MultipartUploadWriter \<Rightarrow> S3MultipartUploadWriter" where
  "call ev u = u\<lparr>u_calls := u_calls u @ [ev]\<rparr>"

definition setPart :: "nat \<Rightarrow> S3PartToUpload \<Rightarrow> S3MultipartUploadWriter \<Rightarrow> S3MultipartUploadWriter" where
  "setPart k part u = u\<lparr>u_parts := (u_parts u)[k := Some part]\<rparr>"

subsection \<open>Object store actions\<close>

definition s3CreateMultipartUpload ::
  "WriterEnv \<Rightarrow> S3MultipartUploadWriter \<Rightarrow> (S3MultipartUploadWriter \<times> error option) go" where
  "s3CreateMultipartUpload env u =
     (case w_CreateMultipartUpload env (u_calls u) of
        Inl err \<Rightarrow> Ret (call (CreateMultipartUpload None) u, Some err)
      | Inr None \<Rightarrow> Panic
      | Inr (Some uploadId) \<Rightarrow>
          Ret ((call (CreateMultipartUpload (Some uploadId)) u)\<lparr>u_multiPartUploadID := Some uploadId\<rparr>,
               None))"

definition s3PutObject ::
  "WriterEnv \<Rightarrow> S3MultipartUploadWriter \<Rightarrow> string \<Rightarrow> S3MultipartUploadWriter \<times> error option" where
  "s3PutObject env u content' = (call (PutObject content') u, w_PutObject env (u_calls u) content')"

definition s3AbortMultipartUpload :: "S3MultipartUploadWriter \<Rightarrow> S3MultipartUploadWriter" where
  "s3AbortMultipartUpload u =
     (case u_multiPartUploadID u of
        None \<Rightarrow> u
      | Some uploadId \<Rightarrow> (call (AbortMultipartUpload uploadId) u)\<lparr>u_multiPartUploadID := None\<rparr>)"

definition s3CompleteMultipartUpload ::
  "WriterEnv \<Rightarrow> S3MultipartUploadWriter \<Rightarrow> (S3MultipartUploadWriter \<times> error option) go" where
  "s3CompleteMultipartUpload env u =
     (case u_multiPartUploadID u of
        None \<Rightarrow> Panic
      | Some uploadId \<Rightarrow>
          Ret (call (CompleteMultipartUpload (u_completedParts u)) u,
               w_CompleteMultipartUpload env (u_calls u) (u_completedParts u)))"

text \<open>
  \<^verbatim>\<open>s3UploadPart\<close>: the log fields dereference the upload ID first; an incomplete part is
  an error before any request; after a successful request \<^verbatim>\<open>completedParts\<close> is grown to
  the length of \<^verbatim>\<open>parts\<close> and the slot \<^verbatim>\<open>partNumber - 1\<close> is set.
\<close>

definition s3UploadPart ::
  "WriterEnv \<Rightarrow> S3MultipartUploadWriter \<Rightarrow> S3PartToUpload \<Rightarrow> (S3MultipartUploadWriter \<times> error option) go" where
  "s3UploadPart env u part =
     (case u_multiPartUploadID u of
        None \<Rightarrow> Panic
      | Some uploadId \<Rightarrow>
          (case getContent part of
             Inl err \<Rightarrow> Ret (u, Some err)
           | Inr content' \<Rightarrow>
               (case w_UploadPart env (u_calls u) (part_partNumber part) content' of
                  Inl err \<Rightarrow> Ret (call (UploadPart (part_partNumber part) content') u, Some err)
                | Inr etag \<Rightarrow>
                    (let u1 = call (UploadPart (part_partNumber part) content') u;
                         cps = (if length (u_completedParts u1) < length (u_parts u1)
                                then u_completedParts u1
                                     @ replicate (length (u_parts u1) - length (u_completedParts u1)) None
                                else u_completedParts u1);
                         idx = part_partNumber part - 1
                     in if idx < 0 \<or> idx \<ge> int (length cps) then Panic
                        else Ret (u1\<lparr>u_completedParts :=
                                        cps[nat idx := Some \<lparr>cp_ETag = etag,
                                                             cp_PartNumber = part_partNumber part\<rparr>]\<rparr>,
                                  None)))))"

subsection \<open>The upload worker\<close>

text \<open>
  \<^verbatim>\<open>S3UploadWorkers.uploadPart\<close> for the part at index \<open>k\<close>, which a worker has received
  from the channel. The deferred \<^verbatim>\<open>uploadGroup.Done()\<close> panics on a counter that is
  already zero. The error of a failed upload is stored by \<^verbatim>\<open>seterr\<close>, which overwrites
  \<^verbatim>\<open>u.err\<close>.
\<close>

definition seterr :: "error \<Rightarrow> S3MultipartUploadWriter \<Rightarrow> S3MultipartUploadWriter" where
  "seterr e u = u\<lparr>u_err := Some e\<rparr>"

definition uploadGroup_Done :: "S3MultipartUploadWriter \<Rightarrow> S3MultipartUploadWriter go" where
  "uploadGroup_Done u =
     (if u_uploadGroup u = 0 then Panic else Ret (u\<lparr>u_uploadGroup := u_uploadGroup u - 1\<rparr>))"

definition uploadPart :: "WriterEnv \<Rightarrow> S3MultipartUploadWriter \<Rightarrow> nat \<Rightarrow> S3MultipartUploadWriter go" where
  "uploadPart env u0 k =
     (let u = u0\<lparr>u_inflight := remove1 k (u_inflight u0)\<rparr> in
      if k \<ge> length (u_parts u) then Panic
      else
        (case u_parts u ! k of
           None \<Rightarrow> Panic
         | Some part \<Rightarrow>
             if part_state part \<noteq> S3PartUploadStateFull then
               (if u_multiPartUploadID u = None then Panic else uploadGroup_Done u)
             else
               (case s3UploadPart env u part of
                  Panic \<Rightarrow> Panic
                | Blocked \<Rightarrow> Blocked
                | Ret (u1, err) \<Rightarrow>
                    (let u2 = call (PoolPut (part_partNumber part)) u1 in
                     case err of
                       Some e \<Rightarrow>
                         uploadGroup_Done
                           (seterr e (setPart k (part\<lparr>part_state := S3PartUploadErrorSending\<rparr>) u2))
                     | None \<Rightarrow>
                         uploadGroup_Done
                           (setPart k (part\<lparr>part_state := S3PartUploadStateSent\<rparr>) u2)))))"

text \<open>
  The same in two steps, for a worker that reaches \<^verbatim>\<open>seterr\<close> while a call on the writer
  holds \<^verbatim>\<open>u.mtx\<close>. \<open>uploadPart_begin\<close> is \<^verbatim>\<open>uploadPart\<close> as far as the call of
  \<^verbatim>\<open>seterr\<close>: after a failed upload the buffer is back in the pool, the part is in state
  ErrorSending, and the worker waits with the mutex of the part in its hands; nothing is
  left to do after an upload that succeeded or a part in an invalid state.
  \<open>uploadPart_end\<close> is the rest: the error is stored, and the deferred
  \<^verbatim>\<open>uploadGroup.Done()\<close> and \<^verbatim>\<open>part.mtx.Unlock()\<close> run.
\<close>

definition uploadPart_begin :: "WriterEnv \<Rightarrow> S3MultipartUploadWriter \<Rightarrow> nat \<Rightarrow> S3MultipartUploadWriter go" where
  "uploadPart_begin env u0 k =
     (let u = u0\<lparr>u_inflight := remove1 k (u_inflight u0)\<rparr> in
      if k \<ge> length (u_parts u) then Panic
      else
        (case u_parts u ! k of
           None \<Rightarrow> Panic
         | Some part \<Rightarrow>
             if part_state part \<noteq> S3PartUploadStateFull then
               (if u_multiPartUploadID u = None then Panic else uploadGroup_Done u)
             else
               (case s3UploadPart env u part of
                  Panic \<Rightarrow> Panic
                | Blocked \<Rightarrow> Blocked
                | Ret (u1, err) \<Rightarrow>
                    (let u2 = call (PoolPut (part_partNumber part)) u1 in
                     case err of
                       Some e \<Rightarrow>
                         Ret ((setPart k (part\<lparr>part_state := S3PartUploadErrorSending\<rparr>) u2)
                                \<lparr>u_inSeterr := u_inSeterr u2 @ [(k, e)]\<rparr>)
                     | None \<Rightarrow>
                         uploadGroup_Done
                           (setPart k (part\<lparr>part_state := S3PartUploadStateSent\<rparr>) u2)))))"

definition uploadPart_end :: "S3MultipartUploadWriter \<Rightarrow> nat \<Rightarrow> error \<Rightarrow> S3MultipartUploadWriter go" where
  "uploadPart_end u k e =
     uploadGroup_Done (seterr e (u\<lparr>u_inSeterr := remove1 (k, e) (u_inSeterr u)\<rparr>))"

text \<open>
  \<^verbatim>\<open>u.uploadGroup.Wait()\<close> is called without \<^verbatim>\<open>u.mtx\<close>: the workers that wait in
  \<^verbatim>\<open>seterr\<close> get through, then the workers handle the parts they hold, one after the
  other in the order of \<open>u_inflight\<close>; the wait ends when the counter is back at zero
  and never ends otherwise.
\<close>

fun endAll :: "S3MultipartUploadWriter \<Rightarrow> (nat \<times> error) list \<Rightarrow> S3MultipartUploadWriter go" where
  "endAll u [] = Ret u"
| "endAll u ((k, e) # ws) =
     (case uploadPart_end u k e of
        Panic \<Rightarrow> Panic
      | Blocked \<Rightarrow> Blocked
      | Ret u' \<Rightarrow> endAll u' ws)"

fun drain :: "WriterEnv \<Rightarrow> S3MultipartUploadWriter \<Rightarrow> nat list \<Rightarrow> S3MultipartUploadWriter go" where
  "drain env u [] = Ret u"
| "drain env u (k # ks) =
     (case uploadPart env u k of
        Panic \<Rightarrow> Panic
      | Blocked \<Rightarrow> Blocked
      | Ret u' \<Rightarrow> drain env u' ks)"

definition uploadGroup_Wait :: "WriterEnv \<Rightarrow> S3MultipartUploadWriter \<Rightarrow> S3MultipartUploadWriter go" where
  "uploadGroup_Wait env u =
     (case endAll u (u_inSeterr u) of
        Panic \<Rightarrow> Panic
      | Blocked \<Rightarrow> Blocked
      | Ret u0 \<Rightarrow>
          (case drain env u0 (u_inflight u0) of
             Panic \<Rightarrow> Panic
           | Blocked \<Rightarrow> Blocked
           | Ret u' \<Rightarrow> if u_uploadGroup u' = 0 then Ret u' else Blocked))"

subsection \<open>Enqueueing and cancelling parts\<close>

text \<open>
  \<^verbatim>\<open>enqueueUpload\<close> for the part at index \<open>k\<close>; a nil part panics at \<^verbatim>\<open>part.state\<close>.
\<close>

definition enqueueUpload ::
  "WriterEnv \<Rightarrow> S3MultipartUploadWriter \<Rightarrow> nat \<Rightarrow> (S3MultipartUploadWriter \<times> error option) go" where
  "enqueueUpload env u k =
     (if k \<ge> length (u_parts u) then Panic
      else
        (case u_parts u ! k of
           None \<Rightarrow> Panic
         | Some part \<Rightarrow>
             if stateNum (part_state part) < stateNum S3PartUploadStateFull then
               (case (if u_multiPartUploadID u = None then s3CreateMultipartUpload env u
                      else Ret (u, None)) of
                  Panic \<Rightarrow> Panic
                | Blocked \<Rightarrow> Blocked
                | Ret (u1, Some err) \<Rightarrow> Ret (u1, Some err)
                | Ret (u1, None) \<Rightarrow>
                    (let u2 = (setPart k (part\<lparr>part_state := S3PartUploadStateFull\<rparr>) u1)
                                \<lparr>u_uploadGroup := u_uploadGroup u1 + 1\<rparr>
                     in if w_ctxDone env (u_calls u2) then Ret (u2, Some ErrEnqueueCancelled)
                        else Ret (u2\<lparr>u_inflight := u_inflight u2 @ [k]\<rparr>, None)))
             else Ret (u, None)))"

text \<open>
  The loop of \<^verbatim>\<open>closePartsInStateAdding\<close> runs from the last part down to the first: the
  buffer of a part of a higher index goes back to the pool first.
\<close>

fun closeParts :: "S3PartToUpload option list \<Rightarrow> S3PartToUpload option list \<times> event list \<times> int" where
  "closeParts [] = ([], [], 0)"
| "closeParts (p # ps) =
     (case closeParts ps of
        (ps', evs, pending) \<Rightarrow>
          (case p of
             None \<Rightarrow> (None # ps', evs, pending)
           | Some part \<Rightarrow>
               if part_state part = S3PartUploadStateAdding
               then (Some (part\<lparr>part_state := S3PartUploadCancelled\<rparr>) # ps',
                     evs @ [PoolPut (part_partNumber part)], pending + 1)
               else (Some part # ps', evs, pending)))"

definition cancelAddingParts :: "S3MultipartUploadWriter \<Rightarrow> S3MultipartUploadWriter \<times> int" where
  "cancelAddingParts u =
     (case closeParts (u_parts u) of
        (ps', evs, pending) \<Rightarrow> (u\<lparr>u_parts := ps', u_calls := u_calls u @ evs\<rparr>, pending))"

text \<open>
  \<^verbatim>\<open>closePartsInStateAdding\<close> runs with \<^verbatim>\<open>u.mtx\<close> held and takes \<^verbatim>\<open>part.mtx\<close> of every part
  that is not nil. When a worker holds one of them and waits in \<^verbatim>\<open>seterr\<close> for \<^verbatim>\<open>u.mtx\<close>,
  neither gets any further; otherwise the loop runs through (\<open>cancelAddingParts\<close>).
\<close>

definition heldInSeterr :: "S3MultipartUploadWriter \<Rightarrow> bool" where
  "heldInSeterr u =
     list_ex (\<lambda>(k, e). k < length (u_parts u) \<and> u_parts u ! k \<noteq> None) (u_inSeterr u)"

definition closePartsInStateAdding :: "S3MultipartUploadWriter \<Rightarrow> (S3MultipartUploadWriter \<times> int) go" where
  "closePartsInStateAdding u = (if heldInSeterr u then Blocked else Ret (cancelAddingParts u))"

subsection \<open>WriteAt\<close>

text \<open>
  What every failing path of \<^verbatim>\<open>WriteAt\<close> does before it returns \<open>(0, err)\<close>, all of it
  with \<^verbatim>\<open>u.mtx\<close> held: abort the multipart upload if one is open, cancel the parts still
  being filled, store the error. It does not return when \<^verbatim>\<open>closePartsInStateAdding\<close> does
  not. \<open>failedWriter\<close> is the writer it leaves when it returns.
\<close>

definition failWrite :: "S3MultipartUploadWriter \<Rightarrow> error \<Rightarrow> S3MultipartUploadWriter go" where
  "failWrite u err =
     (case closePartsInStateAdding (s3AbortMultipartUpload u) of
        Panic \<Rightarrow> Panic
      | Blocked \<Rightarrow> Blocked
      | Ret (u', pending) \<Rightarrow> Ret (u'\<lparr>u_err := Some err\<rparr>))"

definition failedWriter :: "S3MultipartUploadWriter \<Rightarrow> error \<Rightarrow> S3MultipartUploadWriter" where
  "failedWriter u err = (fst (cancelAddingParts (s3AbortMultipartUpload u)))\<lparr>u_err := Some err\<rparr>"

text \<open>
  The part at index \<open>partNumber\<close>, taken from the pool when the slot is still nil
  (\<open>Inl\<close>), or the error of the pool (\<open>Inr\<close>). Only a buffer that was handed out is
  recorded as \<open>PoolGet\<close>.
\<close>

definition getPart ::
  "WriterEnv \<Rightarrow> S3MultipartUploadWriter \<Rightarrow> int \<Rightarrow>
   (S3MultipartUploadWriter \<times> S3PartToUpload) + error" where
  "getPart env u partNumber =
     (case u_parts u ! nat partNumber of
        Some part \<Rightarrow> Inl (u, part)
      | None \<Rightarrow>
          (case w_PoolGet env (u_calls u) of
             Inl err \<Rightarrow> Inr err
           | Inr b \<Rightarrow>
               (let part = \<lparr>part_content = b, part_partNumber = partNumber + 1,
                            part_o = NewOffsetRanges (int (u_BufSize u)),
                            part_state = S3PartUploadStateAdding\<rparr>
                in Inl (setPart (nat partNumber) part (call PoolGet u), part))))"

text \<open>
  One iteration of the loop of \<^verbatim>\<open>WriteAt\<close>. The result is the writer to go on with
  (\<open>Inl\<close>) or the writer and the error of an early \<^verbatim>\<open>return 0, err\<close> (\<open>Inr\<close>). The
  capacity of \<open>buf\<close> is taken to be its length. A part that is not in state Adding is
  left alone: only a warning is logged.
\<close>

definition writeStep ::
  "WriterEnv \<Rightarrow> S3MultipartUploadWriter \<Rightarrow> string \<Rightarrow> int \<Rightarrow> int \<Rightarrow> int \<Rightarrow> int \<Rightarrow>
   (S3MultipartUploadWriter + S3MultipartUploadWriter \<times> error) go" where
  "writeStep env u buf partNumber partOffset pending bufOffset =
     (let partSize = int (u_BufSize u) in
      if partNumber < 0 \<or> partNumber \<ge> int (length (u_parts u)) then Panic
      else
        (case getPart env u partNumber of
           Inr err \<Rightarrow>
             (case failWrite u err of
                Panic \<Rightarrow> Panic
              | Blocked \<Rightarrow> Blocked
              | Ret u' \<Rightarrow> Ret (Inr (u', err)))
         | Inl (u1, part) \<Rightarrow>
             (let partOffsetFinal = (if partOffset + pending > partSize then partSize
                                     else partOffset + pending);
                  partCopied = partOffsetFinal - partOffset
              in if stateNum (part_state part) < stateNum S3PartUploadStateFull then
                   (if bufOffset < 0 \<or> partCopied < 0 \<or> bufOffset + partCopied > int (length buf)
                    then Panic
                    else
                      (case part_copy part (take (nat partCopied) (drop (nat bufOffset) buf))
                              partOffset partOffsetFinal of
                         Panic \<Rightarrow> Panic
                       | Blocked \<Rightarrow> Blocked
                       | Ret part' \<Rightarrow>
                           (let u2 = setPart (nat partNumber) part' u1 in
                            if isFull part' then
                              (case enqueueUpload env u2 (nat partNumber) of
                                 Panic \<Rightarrow> Panic
                               | Blocked \<Rightarrow> Blocked
                               | Ret (u3, Some err) \<Rightarrow>
                                   (case failWrite u3 err of
                                      Panic \<Rightarrow> Panic
                                    | Blocked \<Rightarrow> Blocked
                                    | Ret u' \<Rightarrow> Ret (Inr (u', err)))
                               | Ret (u3, None) \<Rightarrow> Ret (Inl u3))
                            else Ret (Inl u2))))
                 else Ret (Inl u1))))"

text \<open>
  The number of bytes an iteration consumes, \<^verbatim>\<open>partCopied\<close>.
\<close>

definition partCopied :: "int \<Rightarrow> int \<Rightarrow> int \<Rightarrow> int" where
  "partCopied partSize partOffset pending =
     (if partOffset + pending > partSize then partSize else partOffset + pending) - partOffset"

function writeLoop ::
  "WriterEnv \<Rightarrow> S3MultipartUploadWriter \<Rightarrow> string \<Rightarrow> int \<Rightarrow> int \<Rightarrow> int \<Rightarrow> int \<Rightarrow>
   (S3MultipartUploadWriter \<times> int \<times> error option) go" where
  "writeLoop env u buf partNumber partOffset pending bufOffset =
     (if pending \<le> 0 then Ret (u, int (length buf), None)
      else if u_BufSize u = 0 then Panic
      else
        (case writeStep env u buf partNumber partOffset pending bufOffset of
           Panic \<Rightarrow> Panic
         | Blocked \<Rightarrow> Blocked
         | Ret (Inr (u', err)) \<Rightarrow> Ret (u', 0, Some err)
         | Ret (Inl u') \<Rightarrow>
             writeLoop env u' buf (partNumber + 1) 0
               (pending - partCopied (int (u_BufSize u)) partOffset pending)
               (bufOffset + partCopied (int (u_BufSize u)) partOffset pending)))"
  by pat_completeness auto
termination
proof (relation "(\<lambda>(env, u, buf, partNumber, partOffset, pending, bufOffset).
                    if partOffset = 0 then 0 else 1 :: nat) <*mlex*>
                measure (\<lambda>(env, u, buf, partNumber, partOffset, pending, bufOffset). nat pending)",
       goal_cases)
  case 1
  show ?case by (simp add: wf_mlex)
next
  case (2 env u buf partNumber partOffset pending bufOffset x u')
  show ?case
  proof (cases "partOffset = 0")
    case True
    with 2 have "nat (pending - partCopied (int (u_BufSize u)) partOffset pending) < nat pending"
      by (simp add: partCopied_def)
    with True show ?thesis by (intro mlex_leq) simp_all
  next
    case False
    then show ?thesis by (intro mlex_less) simp
  qed
qed

declare writeLoop.simps [simp del]

text \<open>
  \<^verbatim>\<open>WriteAt\<close>. A pool whose buffers have size 0 makes \<^verbatim>\<open>off / partSize\<close> panic. The size
  recorded in the phantom entry is raised by \<^verbatim>\<open>SetSizeIfGreater\<close>.
\<close>

definition WriteAt ::
  "WriterEnv \<Rightarrow> S3MultipartUploadWriter \<Rightarrow> string \<Rightarrow> int \<Rightarrow>
   (S3MultipartUploadWriter \<times> int \<times> error option) go" where
  "WriteAt env u buf off =
     (let pending = int (length buf);
          offFinal = wrap64 (off + pending);
          partSize = int (u_BufSize u)
      in if partSize = 0 then Panic
         else
           (let partNumberInitial = quot off partSize;
                partOffsetInitial = rem off partSize;
                err = (if u_err u = None \<and> u_MaxObjectSize u \<ge> 0 \<and> offFinal > u_MaxObjectSize u
                       then Some (ErrFileTooLarge (u_MaxObjectSize u)) else u_err u)
            in case err of
                 Some e \<Rightarrow>
                   (case failWrite u e of
                      Panic \<Rightarrow> Panic
                    | Blocked \<Rightarrow> Blocked
                    | Ret u' \<Rightarrow> Ret (u', 0, Some e))
               | None \<Rightarrow>
                   (let partNumberFinal = quot (wrap64 (off + pending - 1)) partSize;
                        u1 = u\<lparr>u_InfoSize := (if offFinal > u_InfoSize u then offFinal else u_InfoSize u)\<rparr>;
                        u2 = (if int (length (u_parts u1)) \<le> partNumberFinal
                              then u1\<lparr>u_parts := u_parts u1
                                        @ replicate (nat (partNumberFinal + 1) - length (u_parts u1)) None\<rparr>
                              else u1)
                    in writeLoop env u2 buf partNumberInitial partOffsetInitial pending 0)))"

subsection \<open>Close\<close>

text \<open>
  The end of \<^verbatim>\<open>Close\<close> when \<^verbatim>\<open>err != nil\<close>, with \<^verbatim>\<open>u.mtx\<close> held: abort, cancel the parts
  still being filled, return the error.
\<close>

definition closeFail :: "S3MultipartUploadWriter \<Rightarrow> error \<Rightarrow> (S3MultipartUploadWriter \<times> error option) go" where
  "closeFail u err =
     (case closePartsInStateAdding (s3AbortMultipartUpload u) of
        Panic \<Rightarrow> Panic
      | Blocked \<Rightarrow> Blocked
      | Ret (u', pending) \<Rightarrow> Ret (u', Some err))"

text \<open>The branch of \<^verbatim>\<open>Close\<close> for a single part and no multipart upload.\<close>

definition closeSingle ::
  "WriterEnv \<Rightarrow> S3MultipartUploadWriter \<Rightarrow> (S3MultipartUploadWriter \<times> error option) go" where
  "closeSingle env u =
     (case u_parts u ! 0 of
        None \<Rightarrow> Panic
      | Some part \<Rightarrow>
          (case getContent part of
             Inr content' \<Rightarrow>
               (case s3PutObject env u content' of
                  (u1, err) \<Rightarrow>
                    (let u2 = call (PoolPut (part_partNumber part)) u1 in
                     case err of
                       None \<Rightarrow> Ret (setPart 0 (part\<lparr>part_state := S3PartUploadStateSent\<rparr>) u2, None)
                     | Some e \<Rightarrow>
                         closeFail (setPart 0 (part\<lparr>part_state := S3PartUploadErrorSending\<rparr>) u2) e))
           | Inl e \<Rightarrow>
               closeFail (setPart 0 (part\<lparr>part_state := S3PartUploadErrorSending\<rparr>)
                            (call (PoolPut (part_partNumber part)) u)) e))"

text \<open>
  The other branch: \<^verbatim>\<open>u.mtx\<close> is released, the last part is enqueued
  (\<^verbatim>\<open>u.parts[len(u.parts)-1]\<close> panics when there is no part) and the uploads are waited
  for; with \<^verbatim>\<open>u.mtx\<close> held again, the upload is completed unless a part is still being
  filled or an error was stored.
\<close>

definition closeMultipart ::
  "WriterEnv \<Rightarrow> S3MultipartUploadWriter \<Rightarrow> (S3MultipartUploadWriter \<times> error option) go" where
  "closeMultipart env u =
     (if u_parts u = [] then Panic
      else
        (case enqueueUpload env u (length (u_parts u) - 1) of
           Panic \<Rightarrow> Panic
         | Blocked \<Rightarrow> Blocked
         | Ret (u1, err) \<Rightarrow>
             (case uploadGroup_Wait env u1 of
                Panic \<Rightarrow> Panic
              | Blocked \<Rightarrow> Blocked
              | Ret u2 \<Rightarrow>
                  (case err of
                     Some e \<Rightarrow> closeFail u2 e
                   | None \<Rightarrow>
                       (case closePartsInStateAdding u2 of
                          Panic \<Rightarrow> Panic
                        | Blocked \<Rightarrow> Blocked
                        | Ret (u3, pending) \<Rightarrow>
                            if pending > 0 then closeFail u3 (ErrPendingParts pending)
                            else
                              (case u_err u3 of
                                 Some e \<Rightarrow> closeFail u3 e
                               | None \<Rightarrow>
                                   (case s3CompleteMultipartUpload env u3 of
                                      Panic \<Rightarrow> Panic
                                    | Blocked \<Rightarrow> Blocked
                                    | Ret (u4, None) \<Rightarrow> Ret (u4, None)
                                    | Ret (u4, Some e) \<Rightarrow> closeFail u4 e)))))))"

definition Close ::
  "WriterEnv \<Rightarrow> S3MultipartUploadWriter \<Rightarrow> (S3MultipartUploadWriter \<times> error option) go" where
  "Close env u0 =
     (let u = (call (PhantomRemoveByInfoPtr (u_Info u0)) u0)
                \<lparr>u_PhantomObjectMap := RemoveByInfoPtr (u_PhantomObjectMap u0) (u_Info u0)\<rparr>
      in case u_err u of
           Some e \<Rightarrow> closeFail u e
         | None \<Rightarrow>
             if length (u_parts u) = 1 \<and> u_multiPartUploadID u = None then closeSingle env u
             else closeMultipart env u)"

text \<open>
  The writer \<^verbatim>\<open>Filewrite\<close> makes: no part, no upload, no error, and its phantom entry
  added to the map.
\<close>

definition newWriter :: "nat \<Rightarrow> int \<Rightarrow> string \<Rightarrow> nat \<Rightarrow> S3MultipartUploadWriter" where
  "newWriter bufSize maxObjectSize key info =
     \<lparr>u_MaxObjectSize = maxObjectSize, u_BufSize = bufSize, u_Info = info, u_InfoSize = 0,
      u_completedParts = [], u_parts = [], u_multiPartUploadID = None, u_err = None,
      u_uploadGroup = 0, u_inflight = [], u_inSeterr = [], u_PhantomObjectMap = [(key, info)],
      u_calls = []\<rparr>"

text \<open>A selection of the object store requests among the calls.\<close>

fun isS3Call :: "event \<Rightarrow> bool" where
  "isS3Call (PutObject c) = True"
| "isS3Call (CreateMultipartUpload r) = True"
| "isS3Call (UploadPart n c) = True"
| "isS3Call (CompleteMultipartUpload ps) = True"
| "isS3Call (AbortMultipartUpload i) = True"
| "isS3Call PoolGet = False"
| "isS3Call (PoolPut n) = False"
| "isS3Call (PhantomRemoveByInfoPtr i) = False"


text \<open>
  Surroundings in which nothing fails and the context is never cancelled, for the
  scenarios below: the pool hands out buffers of \<open>bufSize\<close> dots, the object store
  accepts every request, gives the upload ID \<open>id\<close> and the entity tag \<open>etag\<close>.
\<close>

definition okEnv :: "nat \<Rightarrow> WriterEnv" where
  "okEnv bufSize =
     \<lparr>w_PutObject = (\<lambda>tr c. None),
      w_CreateMultipartUpload = (\<lambda>tr. Inr (Some ''id'')),
      w_UploadPart = (\<lambda>tr n c. Inr (Some ''etag'')),
      w_CompleteMultipartUpload = (\<lambda>tr ps. None),
      w_PoolGet = (\<lambda>tr. Inr (replicate bufSize (CHR ''.''))),
      w_ctxDone = (\<lambda>tr. False)\<rparr>"

text \<open>
  The same surroundings with an object store that refuses every part, with an error that
  names the part.
\<close>

definition failingUploads :: "nat \<Rightarrow> WriterEnv" where
  "failingUploads bufSize =
     (okEnv bufSize)\<lparr>w_UploadPart :=
        (\<lambda>tr n c. Inl (ErrUpstream (if n = 1 then ''part 1 refused'' else ''another part refused'')))\<rparr>"


text \<open>The calls an upload worker makes.\<close>

fun isWorkerEvent :: "event \<Rightarrow> bool" where
  "isWorkerEvent (UploadPart n c) = True"
| "isWorkerEvent (PoolPut n) = True"
| "isWorkerEvent ev = False"

text \<open>
  What holds of a writer without error between two operations: every upload counted by
  the wait group is with a worker; the parts with the workers are allocated; parts are
  numbered by their position; and a multipart upload is open while a worker holds a part.
\<close>

definition wfWriter :: "S3MultipartUploadWriter \<Rightarrow> bool" where
  "wfWriter u =
     (u_uploadGroup u = length (u_inflight u) \<and>
      (\<forall>k \<in> set (u_inflight u). k < length (u_parts u) \<and> u_parts u ! k \<noteq> None) \<and>
      (\<forall>k < length (u_parts u).
         case u_parts u ! k of None \<Rightarrow> True | Some p \<Rightarrow> part_partNumber p = int k + 1) \<and>
      (u_inflight u \<noteq> [] \<longrightarrow> u_multiPartUploadID u \<noteq> None))"

text \<open>
  A relation between the states of a writer before and after upload workers have run,
  used in the proofs: the parts list keeps its length, an empty slot stays empty, a part
  keeps its number, a part in state Adding is not touched and no part becomes Adding;
  the upload ID, the phantom map and the writer's entry are the same; and the calls made
  are worker calls.
\<close>

definition workersRan :: "S3MultipartUploadWriter \<Rightarrow> S3MultipartUploadWriter \<Rightarrow> bool" where
  "workersRan u u' =
     (length (u_parts u') = length (u_parts u) \<and>
      u_multiPartUploadID u' = u_multiPartUploadID u \<and>
      u_PhantomObjectMap u' = u_PhantomObjectMap u \<and> u_Info u' = u_Info u \<and>
      (\<forall>k < length (u_parts u).
         case u_parts u ! k of
           None \<Rightarrow> u_parts u' ! k = None
         | Some p \<Rightarrow>
             (\<exists>p'. u_parts u' ! k = Some p' \<and> part_partNumber p' = part_partNumber p \<and>
                (part_state p = S3PartUploadStateAdding \<longrightarrow> p' = p) \<and>
                (part_state p' = S3PartUploadStateAdding \<longrightarrow> part_state p = S3PartUploadStateAdding))) \<and>
      (\<exists>evs. u_calls u' = u_calls u @ evs \<and> (\<forall>ev \<in> set evs. isWorkerEvent ev)) \<and>
      (u_err u \<noteq> None \<longrightarrow> u_err u' \<noteq> None))"

text \<open>The buffers taken from the pool, among the calls.\<close>

fun isPoolGet :: "event \<Rightarrow> bool" where
  "isPoolGet PoolGet = True"
| "isPoolGet ev = False"

text \<open>
  The parts of a writer are numbered by their position: the part in slot \<open>k\<close> has part
  number \<open>k + 1\<close>. The loop of \<^verbatim>\<open>WriteAt\<close> is the only place where a part is made, with
  \<^verbatim>\<open>partNumber: int64(partNumber + 1)\<close> for the slot \<^verbatim>\<open>partNumber\<close>, and nothing changes
  the number of a part.
\<close>

definition partsNumberedByPosition :: "S3MultipartUploadWriter \<Rightarrow> bool" where
  "partsNumberedByPosition u =
     list_all (\<lambda>(k, slot). case slot of None \<Rightarrow> True | Some p \<Rightarrow> part_partNumber p = int k + 1)
       (enumerate 0 (u_parts u))"

text \<open>
  The traces that begin with the calls made before a \<open>Close\<close> of the writer \<open>u\<close>,
  followed by the removal of its phantom entry.
\<close>

definition afterRemoval :: "S3MultipartUploadWriter \<Rightarrow> event list \<Rightarrow> bool" where
  "afterRemoval u tr =
     (take (Suc (length (u_calls u))) tr = u_calls u @ [PhantomRemoveByInfoPtr (u_Info u)])"

text \<open>
  A relation between two states of a writer, used in the proofs: calls were added at the
  end and none taken away, and the phantom map and the writer's entry are the same.
\<close>

definition callsAdded :: "S3MultipartUploadWriter \<Rightarrow> S3MultipartUploadWriter \<Rightarrow> bool" where
  "callsAdded u u' =
     (take (length (u_calls u)) (u_calls u') = u_calls u \<and>
      u_PhantomObjectMap u' = u_PhantomObjectMap u \<and> u_Info u' = u_Info u)"

section \<open>Properties of the ACL mode\<close>

lemma permSwitch_permBits:
  "perm \<noteq> None \<Longrightarrow> permSwitch perm v r w f = Some (v OR permBits perm r w f)"
  by (cases perm) (simp_all add: permSwitch_def permBits_def)

lemma grantStep_contribution:
  assumes "Owner_ID ow = Some oid" and "Grant_Permission g \<noteq> None"
  shows "grantStep (Some ow) v g = Some (v OR specContribution oid g)"
proof (cases "Grant_Grantee g")
  case None
  then show ?thesis by (simp add: grantStep_def specContribution_def)
next
  case (Some gr)
  show ?thesis
  proof (cases "Grantee_ID gr = Some oid")
    case True
    with Some assms show ?thesis
      by (simp add: grantStep_def specContribution_def permSwitch_permBits)
  next
    case False
    have u: "uriBranch gr (Grant_Permission g) v =
        Some (v OR (if Grantee_URI gr = Some uriAuthenticatedUsers then permBits (Grant_Permission g) 288 144 432
          else if Grantee_URI gr = Some uriAllUsers then permBits (Grant_Permission g) 292 146 438
          else 0))"
      using assms(2)
      by (cases "Grantee_URI gr") (simp_all add: uriBranch_def permSwitch_permBits)
    from False Some assms(1) u show ?thesis
      by (cases "Grantee_ID gr") (simp_all add: grantStep_def specContribution_def)
  qed
qed

lemma aclLoop_fold:
  assumes "Owner_ID ow = Some oid"
  shows "\<forall>g\<in>set grants. Grant_Permission g \<noteq> None \<Longrightarrow>
    aclLoop (Some ow) grants v = Some (v OR specMode oid grants)"
proof (induction grants arbitrary: v)
  case Nil
  then show ?case by (simp add: specMode_def)
next
  case (Cons g gs)
  from Cons.prems have p: "Grant_Permission g \<noteq> None" and r: "\<forall>g\<in>set gs. Grant_Permission g \<noteq> None"
    by simp_all
  have "aclLoop (Some ow) (g # gs) v = aclLoop (Some ow) gs (v OR specContribution oid g)"
    by (simp add: grantStep_contribution [OF assms p])
  also have "\<dots> = Some ((v OR specContribution oid g) OR specMode oid gs)"
    by (rule Cons.IH [OF r])
  also have "\<dots> = Some (v OR specMode oid (g # gs))"
    by (simp add: specMode_def or.assoc)
  finally show ?case .
qed

text \<open>
  Claim C7. For an owner with an ID and grants that each carry a permission (what the
  object store returns), the mode computed by \<open>aclToMode\<close> is the bitwise OR of the
  per-grant contributions: 0400/0200/0600 for READ/WRITE/FULL_CONTROL on a grant whose
  grantee ID is the owner's, 0440/0220/0660 on the AuthenticatedUsers URI, 0444/0222/0666
  on the AllUsers URI, and nothing for any other grant.
\<close>

theorem aclToMode_is_or_of_contributions:
  assumes "Owner_ID ow = Some oid"
    and "\<forall>g\<in>set grants. Grant_Permission g \<noteq> None"
  shows "aclToMode (Some ow) grants = Some (specMode oid grants)"
  using aclLoop_fold [OF assms(1) assms(2), of 0] by (simp add: aclToMode_def)

theorem aclToMode_is_or_of_contributions_witness:
  "aclToMode (Some \<lparr>Owner_ID = Some ''me''\<rparr>)
     [\<lparr>Grant_Grantee = Some \<lparr>Grantee_ID = Some ''me'', Grantee_URI = None\<rparr>,
       Grant_Permission = Some ''FULL_CONTROL''\<rparr>,
      \<lparr>Grant_Grantee = Some \<lparr>Grantee_ID = None, Grantee_URI = Some uriAllUsers\<rparr>,
       Grant_Permission = Some ''READ''\<rparr>]
   = Some 420"
proof -
  let ?ow = "\<lparr>Owner_ID = Some ''me''\<rparr>"
  let ?gs = "[\<lparr>Grant_Grantee = Some \<lparr>Grantee_ID = Some ''me'', Grantee_URI = None\<rparr>,
       Grant_Permission = Some ''FULL_CONTROL''\<rparr>,
      \<lparr>Grant_Grantee = Some \<lparr>Grantee_ID = None, Grantee_URI = Some uriAllUsers\<rparr>,
       Grant_Permission = Some ''READ''\<rparr>]"
  have a: "Owner_ID ?ow = Some ''me''" by simp
  have b: "\<forall>g\<in>set ?gs. Grant_Permission g \<noteq> None" by simp
  have c: "specMode ''me'' ?gs = 420"
    by (simp add: specMode_def specContribution_def permBits_def uriAllUsers_def
        uriAuthenticatedUsers_def)
  show ?thesis
    using aclToMode_is_or_of_contributions [OF a b] c by simp
qed

section \<open>Properties of the stat resolver\<close>

lemma stat_ListAt_reaches_acl:
  assumes "st_castInt64ToInt env off = Inr off'" and "off' \<le> 0" and "result \<noteq> []"
    and "\<not> Path_IsRoot (sos_Key sos)" and "st_PhantomGet env (sos_Key sos) = None"
  shows "stat_ListAt env sos result off =
     (case st_GetObjectAcl env (Path_String (sos_Key sos)) of
        Inr out \<Rightarrow>
          (case statObject env sos (Path_String (sos_Key sos)) out of
             Ret objInfo \<Rightarrow> Ret (result[0 := objInfo], 1, None)
           | Panic \<Rightarrow> Panic
           | Blocked \<Rightarrow> Blocked)
      | Inl err \<Rightarrow>
          (case st_ListObjectsV2 env (statProbeInput (Path_String (sos_Key sos))) of
             Inl err' \<Rightarrow> Ret (result, 0, Some ErrNotExist)
           | Inr out \<Rightarrow>
               if \<not> sos_Root sos \<and> length (out_CommonPrefixes out) = 0
               then Ret (result, 0, Some ErrNotExist)
               else Ret (result[0 := dirInfo (Path_Base (sos_Key sos)) zeroTime], 1, None)))"
  using assms by (simp add: stat_ListAt_def Let_def)

text \<open>
  Claim C6. A stat (\<open>ListAt\<close> at an offset that is not positive, into a non-empty result
  slice) of a key that is neither the root nor a phantom:
  \<^item> when GetObjectAcl succeeds, it returns \<open>(1, nil)\<close> and \<open>result[0]\<close> carries the mode
    \<open>aclToMode\<close> derives from the grants, with size and modification time from
    HeadObject, or size 0 and the zero time when HeadObject fails;
  \<^item> when GetObjectAcl fails, the listing probe is made with the key as prefix and
    delimiter \<open>/\<close>; a directory entry of mode \<open>0755|DIR\<close> is returned when the probe
    succeeds and the stat is for the session root or there is a common prefix, and
    otherwise the call fails with the does-not-exist error.
\<close>

theorem stat_ListAt_resolution:
  assumes "st_castInt64ToInt env off = Inr off'" and "off' \<le> 0" and "result \<noteq> []"
    and "\<not> Path_IsRoot (sos_Key sos)" and "st_PhantomGet env (sos_Key sos) = None"
  shows "(\<forall>out mode. st_GetObjectAcl env (Path_String (sos_Key sos)) = Inr out \<and>
            aclToMode (acl_Owner out) (acl_Grants out) = Some mode \<longrightarrow>
          (\<forall>h n t. st_HeadObject env (Path_String (sos_Key sos)) = Inr h \<and>
              head_ContentLength h = Some n \<and> head_LastModified h = Some t \<longrightarrow>
            stat_ListAt env sos result off =
              Ret (result[0 := \<lparr>ofi_Name = Path_Base (sos_Key sos), ofi_LastModified = t,
                                ofi_Size = n, ofi_Mode = mode\<rparr>], 1, None)) \<and>
          (\<forall>e. st_HeadObject env (Path_String (sos_Key sos)) = Inl e \<longrightarrow>
            stat_ListAt env sos result off =
              Ret (result[0 := \<lparr>ofi_Name = Path_Base (sos_Key sos), ofi_LastModified = zeroTime,
                                ofi_Size = 0, ofi_Mode = mode\<rparr>], 1, None)))
       \<and> (\<forall>e. st_GetObjectAcl env (Path_String (sos_Key sos)) = Inl e \<longrightarrow>
          (\<forall>out. st_ListObjectsV2 env
                \<lparr>in_Prefix = Path_String (sos_Key sos), in_MaxKeys = 10000, in_Delimiter = ''/'',
                 in_ContinuationToken = None\<rparr> = Inr out \<and>
              (sos_Root sos \<or> out_CommonPrefixes out \<noteq> []) \<longrightarrow>
            stat_ListAt env sos result off =
              Ret (result[0 := \<lparr>ofi_Name = Path_Base (sos_Key sos), ofi_LastModified = zeroTime,
                                ofi_Size = 0, ofi_Mode = 493 OR ModeDir\<rparr>], 1, None)) \<and>
          (\<forall>out. st_ListObjectsV2 env
                \<lparr>in_Prefix = Path_String (sos_Key sos), in_MaxKeys = 10000, in_Delimiter = ''/'',
                 in_ContinuationToken = None\<rparr> = Inr out \<and>
              \<not> sos_Root sos \<and> out_CommonPrefixes out = [] \<longrightarrow>
            stat_ListAt env sos result off = Ret (result, 0, Some ErrNotExist)) \<and>
          (\<forall>e'. st_ListObjectsV2 env
                \<lparr>in_Prefix = Path_String (sos_Key sos), in_MaxKeys = 10000, in_Delimiter = ''/'',
                 in_ContinuationToken = None\<rparr> = Inl e' \<longrightarrow>
            stat_ListAt env sos result off = Ret (result, 0, Some ErrNotExist)))"
  unfolding stat_ListAt_reaches_acl [OF assms]
  by (auto simp add: statObject_def statProbeInput_def dirInfo_def Let_def)

theorem stat_ListAt_resolution_witness:
  "stat_ListAt
     \<lparr>st_castInt64ToInt = Inr, st_PhantomGet = (\<lambda>k. None),
      st_GetObjectAcl = (\<lambda>k. Inr \<lparr>acl_Owner = Some \<lparr>Owner_ID = Some ''me''\<rparr>,
         acl_Grants = [\<lparr>Grant_Grantee = Some \<lparr>Grantee_ID = Some ''me'', Grantee_URI = None\<rparr>,
                         Grant_Permission = Some ''FULL_CONTROL''\<rparr>,
                       \<lparr>Grant_Grantee = Some \<lparr>Grantee_ID = None, Grantee_URI = Some uriAllUsers\<rparr>,
                         Grant_Permission = Some ''READ''\<rparr>]\<rparr>),
      st_HeadObject = (\<lambda>k. Inr \<lparr>head_ContentLength = Some 42, head_LastModified = Some 1000\<rparr>),
      st_ListObjectsV2 = (\<lambda>i. Inl (ErrUpstream ''unused''))\<rparr>
     \<lparr>sos_Key = [''a'', ''b''], sos_Root = False\<rparr> [dirInfo ''x'' 0] 0
   = Ret ([\<lparr>ofi_Name = ''b'', ofi_LastModified = 1000, ofi_Size = 42, ofi_Mode = 420\<rparr>], 1, None)
   \<and> stat_ListAt
     \<lparr>st_castInt64ToInt = Inr, st_PhantomGet = (\<lambda>k. None),
      st_GetObjectAcl = (\<lambda>k. Inl (ErrUpstream ''NoSuchKey'')),
      st_HeadObject = (\<lambda>k. Inl (ErrUpstream ''NotFound'')),
      st_ListObjectsV2 = (\<lambda>i. if in_Prefix i = ''a/b'' \<and> in_Delimiter i = ''/''
         then Inr \<lparr>out_CommonPrefixes = [\<lparr>cp_Prefix = Some ''a/b/''\<rparr>], out_Contents = [],
                    out_NextContinuationToken = None\<rparr>
         else Inl (ErrUpstream ''other request''))\<rparr>
     \<lparr>sos_Key = [''a'', ''b''], sos_Root = False\<rparr> [dirInfo ''x'' 0] 0
   = Ret ([\<lparr>ofi_Name = ''b'', ofi_LastModified = zeroTime, ofi_Size = 0,
            ofi_Mode = 493 OR ModeDir\<rparr>], 1, None)
   \<and> stat_ListAt
     \<lparr>st_castInt64ToInt = Inr, st_PhantomGet = (\<lambda>k. None),
      st_GetObjectAcl = (\<lambda>k. Inl (ErrUpstream ''NoSuchKey'')),
      st_HeadObject = (\<lambda>k. Inl (ErrUpstream ''NotFound'')),
      st_ListObjectsV2 = (\<lambda>i. Inr \<lparr>out_CommonPrefixes = [], out_Contents = [],
                    out_NextContinuationToken = None\<rparr>)\<rparr>
     \<lparr>sos_Key = [''a'', ''b''], sos_Root = False\<rparr> [dirInfo ''x'' 0] 0
   = Ret ([dirInfo ''x'' 0], 0, Some ErrNotExist)"
  (is "stat_ListAt ?e1 ?sos ?res 0 = _ \<and> stat_ListAt ?e2 ?sos ?res 0 = _
       \<and> stat_ListAt ?e3 ?sos ?res 0 = _")
proof -
  have m: "aclToMode (Some \<lparr>Owner_ID = Some ''me''\<rparr>)
      [\<lparr>Grant_Grantee = Some \<lparr>Grantee_ID = Some ''me'', Grantee_URI = None\<rparr>,
                         Grant_Permission = Some ''FULL_CONTROL''\<rparr>,
                       \<lparr>Grant_Grantee = Some \<lparr>Grantee_ID = None, Grantee_URI = Some uriAllUsers\<rparr>,
                         Grant_Permission = Some ''READ''\<rparr>] = Some 420"
    by (simp add: aclToMode_def grantStep_def uriBranch_def permSwitch_def uriAllUsers_def
        uriAuthenticatedUsers_def)
  have k: "Path_String (sos_Key ?sos) = ''a/b''" "Path_Base (sos_Key ?sos) = ''b''"
    by (simp_all add: Path_Base_def)
  have a: "stat_ListAt ?e1 ?sos ?res 0 =
      Ret ([\<lparr>ofi_Name = ''b'', ofi_LastModified = 1000, ofi_Size = 42, ofi_Mode = 420\<rparr>], 1, None)"
    using stat_ListAt_resolution [of ?e1 0 0 ?res ?sos] m k
    by (simp add: Path_IsRoot_def)
  have b: "stat_ListAt ?e2 ?sos ?res 0 =
      Ret ([\<lparr>ofi_Name = ''b'', ofi_LastModified = zeroTime, ofi_Size = 0,
            ofi_Mode = 493 OR ModeDir\<rparr>], 1, None)"
    using stat_ListAt_resolution [of ?e2 0 0 ?res ?sos] k
    by (simp add: Path_IsRoot_def)
  have c: "stat_ListAt ?e3 ?sos ?res 0 = Ret (?res, 0, Some ErrNotExist)"
    using stat_ListAt_resolution [of ?e3 0 0 ?res ?sos] k
    by (simp add: Path_IsRoot_def)
  from a b c show ?thesis by simp
qed

section \<open>Properties of the directory lister\<close>

lemma commonPrefixInfos_map:
  "commonPrefixInfos (map (\<lambda>p. \<lparr>cp_Prefix = Some p\<rparr>) prefixes) =
     Some (map (\<lambda>p. dirInfo (path_Base p) timeUnix1) prefixes)"
  by (induction prefixes) simp_all

lemma contentInfos_map:
  "contentInfos (map (\<lambda>(k, t, n). \<lparr>obj_Key = Some k, obj_LastModified = Some t, obj_Size = Some n\<rparr>) objs) =
     Some (map (\<lambda>(k, t, n). fileInfo k t n) objs)"
  by (induction objs) (simp_all split: prod.splits)

lemma compactSpool_at_end:
  assumes "0 \<le> sol_Lookback sol"
  shows "compactSpool sol (int (length (sol_spooled sol))) =
     Ret (if int (length (sol_spooled sol)) \<ge> sol_Lookback sol
          then (sol\<lparr>sol_spooled := drop (length (sol_spooled sol) - nat (sol_Lookback sol)) (sol_spooled sol),
                   sol_spoolOffset := sol_spoolOffset sol + (int (length (sol_spooled sol)) - sol_Lookback sol)\<rparr>,
                sol_Lookback sol)
          else (sol, int (length (sol_spooled sol))))"
  using assms by (auto simp add: compactSpool_def nat_diff_distrib')

lemma length_copySlice:
  "i + n \<le> length dst \<Longrightarrow> s + n \<le> length src \<Longrightarrow> length (copySlice dst i n src s) = length dst"
  by (simp add: copySlice_def)

lemma lister_ListAt_reaches_fetch:
  assumes cast: "ls_castInt64ToInt env off = Inr off'"
    and range: "sol_spoolOffset sol \<le> off'" "off' - sol_spoolOffset sol \<le> int (length (sol_spooled sol))"
    and more: "int (length (sol_spooled sol)) - (off' - sol_spoolOffset sol) < int (length result)"
      "\<not> sol_noMore sol"
  shows "\<exists>result1 i. lister_ListAt env sol result off =
           listFetch env sol result1 i (int (length (sol_spooled sol))) \<and>
         0 \<le> i \<and> i \<le> int (length result1)"
proof (cases "off' - sol_spoolOffset sol < int (length (sol_spooled sol))")
  case True
  let ?n = "int (length (sol_spooled sol)) - (off' - sol_spoolOffset sol)"
  let ?r = "copySlice result 0 (nat ?n) (sol_spooled sol) (nat (off' - sol_spoolOffset sol))"
  have l: "length ?r = length result"
    using True range more by (intro length_copySlice) simp_all
  have "lister_ListAt env sol result off = listFetch env sol ?r ?n (int (length (sol_spooled sol)))"
    using True cast range more by (simp add: lister_ListAt_def Let_def)
  with l True more show ?thesis by (intro exI [of _ ?r] exI [of _ ?n]) simp
next
  case False
  with range have e: "off' - sol_spoolOffset sol = int (length (sol_spooled sol))" by simp
  have "lister_ListAt env sol result off = listFetch env sol result 0 (int (length (sol_spooled sol)))"
    using cast range more e by (simp add: lister_ListAt_def Let_def)
  then show ?thesis by (intro exI [of _ result] exI [of _ 0]) simp
qed

lemma listRequest_upd [simp]:
  "listRequest (sol\<lparr>sol_spooled := x\<rparr>) = listRequest sol"
  "listRequest (sol\<lparr>sol_spoolOffset := y\<rparr>) = listRequest sol"
  by (simp_all add: listRequest_def)

lemma initialEntries_upd [simp]:
  "initialEntries env (sol\<lparr>sol_spooled := x\<rparr>) = initialEntries env sol"
  "initialEntries env (sol\<lparr>sol_spoolOffset := y\<rparr>) = initialEntries env sol"
  by (simp_all add: initialEntries_def)

lemma listFetch_page:
  assumes i: "0 \<le> i" "i \<le> int (length result)"
    and lookback: "0 \<le> sol_Lookback sol"
    and page: "ls_ListObjectsV2 env (listRequest sol) = Inr out"
      "out_CommonPrefixes out = map (\<lambda>p. \<lparr>cp_Prefix = Some p\<rparr>) prefixes"
      "out_Contents out = map (\<lambda>(k, t, n). \<lparr>obj_Key = Some k, obj_LastModified = Some t, obj_Size = Some n\<rparr>) objs"
  shows "\<exists>sol' result' n err.
      listFetch env sol result i (int (length (sol_spooled sol))) = Ret (sol', result', n, err) \<and>
      sol_spooled sol' =
        drop (length (sol_spooled sol) - nat (sol_Lookback sol)) (sol_spooled sol)
        @ initialEntries env sol
        @ (if sol_continuation sol = None
           then map (\<lambda>p. dirInfo (path_Base p) timeUnix1) prefixes else [])
        @ map (\<lambda>(k, t, n). fileInfo k t n) objs"
proof (cases "sol_Lookback sol \<le> int (length (sol_spooled sol))")
  case True
  let ?sol1 = "sol\<lparr>sol_spooled := drop (length (sol_spooled sol) - nat (sol_Lookback sol)) (sol_spooled sol),
                   sol_spoolOffset := sol_spoolOffset sol + (int (length (sol_spooled sol)) - sol_Lookback sol)\<rparr>"
  have c: "compactSpool sol (int (length (sol_spooled sol))) = Ret (?sol1, sol_Lookback sol)"
    using True lookback by (simp add: compactSpool_at_end)
  have len: "int (length (sol_spooled ?sol1)) = sol_Lookback sol"
    using True lookback by simp
  show ?thesis
    unfolding listFetch_def c
    using i lookback len
    by (simp add: page commonPrefixInfos_map contentInfos_map Let_def del: length_drop)
next
  case False
  have c: "compactSpool sol (int (length (sol_spooled sol))) = Ret (sol, int (length (sol_spooled sol)))"
    using False lookback by (simp add: compactSpool_at_end)
  have d: "length (sol_spooled sol) - nat (sol_Lookback sol) = 0"
    using False by simp
  show ?thesis
    unfolding listFetch_def c d
    using i
    by (simp add: page commonPrefixInfos_map contentInfos_map Let_def)
qed

text \<open>
  Claim C5, as the code has it. When \<open>ListAt\<close> has to fetch a page (the request reaches past
  the spool, the listing is not finished) and the object store returns one, the spool
  keeps its last \<open>Lookback\<close> entries and receives, in this order: on the first page only
  (no continuation token yet) the entries \<open>.\<close>, \<open>..\<close> and the phantom uploads, and one
  directory entry of mode \<open>0755|DIR\<close> for each common prefix in the order returned; on
  every page, one regular entry of mode \<open>0644\<close> for each object of \<open>Contents\<close> in the
  order returned. The common prefixes of a continuation page are not spooled.
\<close>

theorem lister_page_entries:
  assumes cast: "ls_castInt64ToInt env off = Inr off'"
    and range: "sol_spoolOffset sol \<le> off'" "off' - sol_spoolOffset sol \<le> int (length (sol_spooled sol))"
    and more: "int (length (sol_spooled sol)) - (off' - sol_spoolOffset sol) < int (length result)"
      "\<not> sol_noMore sol"
    and lookback: "0 \<le> sol_Lookback sol"
    and page: "ls_ListObjectsV2 env (listRequest sol) = Inr out"
      "out_CommonPrefixes out = map (\<lambda>p. \<lparr>cp_Prefix = Some p\<rparr>) prefixes"
      "out_Contents out = map (\<lambda>(k, t, n). \<lparr>obj_Key = Some k, obj_LastModified = Some t, obj_Size = Some n\<rparr>) objs"
  shows "\<exists>sol' result' n err.
      lister_ListAt env sol result off = Ret (sol', result', n, err) \<and>
      sol_spooled sol' =
        drop (length (sol_spooled sol) - nat (sol_Lookback sol)) (sol_spooled sol)
        @ initialEntries env sol
        @ (if sol_continuation sol = None
           then map (\<lambda>p. dirInfo (path_Base p) timeUnix1) prefixes else [])
        @ map (\<lambda>(k, t, n). fileInfo k t n) objs"
proof -
  obtain result1 i where
    step: "lister_ListAt env sol result off = listFetch env sol result1 i (int (length (sol_spooled sol)))"
    and i: "0 \<le> i" "i \<le> int (length result1)"
    using lister_ListAt_reaches_fetch [OF cast range more] by blast
  show ?thesis
    unfolding step by (rule listFetch_page [OF i lookback page])
qed

theorem lister_page_entries_witness:
  "\<exists>sol' result' n err.
     lister_ListAt
       \<lparr>ls_castInt64ToInt = Inr, ls_PhantomList = (\<lambda>p. []),
        ls_ListObjectsV2 = (\<lambda>i. Inr \<lparr>out_CommonPrefixes = [\<lparr>cp_Prefix = Some ''p/d/''\<rparr>],
           out_Contents = [\<lparr>obj_Key = Some ''p/f'', obj_LastModified = Some 5, obj_Size = Some 7\<rparr>],
           out_NextContinuationToken = Some ''tok''\<rparr>)\<rparr>
       \<lparr>sol_Prefix = [''p''], sol_Lookback = 0, sol_spoolOffset = 0, sol_spooled = [],
        sol_continuation = None, sol_noMore = False\<rparr>
       [dirInfo ''x'' 0, dirInfo ''x'' 0] 0 = Ret (sol', result', n, err) \<and>
     sol_spooled sol' =
       [dirInfo ''.'' timeUnix1, dirInfo ''..'' timeUnix1, dirInfo ''d'' timeUnix1, fileInfo ''p/f'' 5 7]"
  (is "\<exists>sol' result' n err. lister_ListAt ?env ?sol ?res 0 = _ \<and> _")
proof -
  let ?out = "\<lparr>out_CommonPrefixes = [\<lparr>cp_Prefix = Some ''p/d/''\<rparr>],
           out_Contents = [\<lparr>obj_Key = Some ''p/f'', obj_LastModified = Some 5, obj_Size = Some 7\<rparr>],
           out_NextContinuationToken = Some ''tok''\<rparr>"
  have b: "path_Base ''p/d/'' = ''d''" by (simp add: path_Base_def)
  show ?thesis
    using lister_page_entries [of ?env 0 0 ?sol ?res ?out "[''p/d/'']" "[(''p/f'', 5, 7)]"] b
    by (simp add: initialEntries_def)
qed

text \<open>
  Claim C5 as stated fails on a continuation page: with a continuation token set, a page
  holding the common prefix \<open>p/d/\<close> and the object \<open>p/f\<close> adds only the entry for
  \<open>p/f\<close> to the spool.
\<close>

theorem lister_continuation_page_skips_common_prefixes:
  "lister_ListAt
       \<lparr>ls_castInt64ToInt = Inr, ls_PhantomList = (\<lambda>p. []),
        ls_ListObjectsV2 = (\<lambda>i. Inr \<lparr>out_CommonPrefixes = [\<lparr>cp_Prefix = Some ''p/d/''\<rparr>],
           out_Contents = [\<lparr>obj_Key = Some ''p/f'', obj_LastModified = Some 5, obj_Size = Some 7\<rparr>],
           out_NextContinuationToken = None\<rparr>)\<rparr>
       \<lparr>sol_Prefix = [''p''], sol_Lookback = 0, sol_spoolOffset = 0, sol_spooled = [],
        sol_continuation = Some ''tok'', sol_noMore = False\<rparr>
       [dirInfo ''x'' 0, dirInfo ''x'' 0] 0
   = Ret (\<lparr>sol_Prefix = [''p''], sol_Lookback = 0, sol_spoolOffset = 0,
           sol_spooled = [fileInfo ''p/f'' 5 7],
           sol_continuation = None, sol_noMore = True\<rparr>,
          [fileInfo ''p/f'' 5 7, dirInfo ''x'' 0], 1, Some ErrEOF)"
  by (simp add: lister_ListAt_def listFetch_def compactSpool_def listRequest_def
      initialEntries_def copySlice_def Let_def)

section \<open>Properties of the random-access reader\<close>

text \<open>
  Claim C2, at the 5-byte object \<open>hello\<close> read with a lookback of 2 and a minimal chunk
  of 3 bytes. The first \<open>ReadAt\<close> of 3 bytes at offset 0 returns \<open>(3, nil)\<close> and \<open>hel\<close>.
  The second, of 3 bytes at offset 2, takes \<open>l\<close> from the spool and \<open>lo\<close> from the body,
  so that the buffer holds \<open>llo\<close>, but it returns \<^verbatim>\<open>be - s\<close>, the count of the bytes of the
  second copy alone: \<open>(2, nil)\<close>, where the claim has \<open>(3, nil)\<close>. The third, of 1 byte at
  offset 5, returns \<open>(0, EOF)\<close>.
\<close>

theorem reader_ReadAt_hello_counts:
  "reader_ReadAt \<lparr>rd_castInt64ToInt = Inr, rd_ctxDone = False\<rparr>
     \<lparr>oor_Body = ''hello'', oor_Lookback = 2, oor_MinChunkSize = 3, oor_spooled = [],
      oor_spoolOffset = 0, oor_noMore = False\<rparr> ''___'' 0
   = Ret (\<lparr>oor_Body = ''lo'', oor_Lookback = 2, oor_MinChunkSize = 3, oor_spooled = ''hel'',
           oor_spoolOffset = 0, oor_noMore = False\<rparr>, ''hel'', 3, None)
   \<and> reader_ReadAt \<lparr>rd_castInt64ToInt = Inr, rd_ctxDone = False\<rparr>
     \<lparr>oor_Body = ''lo'', oor_Lookback = 2, oor_MinChunkSize = 3, oor_spooled = ''hel'',
      oor_spoolOffset = 0, oor_noMore = False\<rparr> ''___'' 2
   = Ret (\<lparr>oor_Body = [], oor_Lookback = 2, oor_MinChunkSize = 3, oor_spooled = ''ello'',
           oor_spoolOffset = 1, oor_noMore = True\<rparr>, ''llo'', 2, None)
   \<and> reader_ReadAt \<lparr>rd_castInt64ToInt = Inr, rd_ctxDone = False\<rparr>
     \<lparr>oor_Body = [], oor_Lookback = 2, oor_MinChunkSize = 3, oor_spooled = ''ello'',
      oor_spoolOffset = 1, oor_noMore = True\<rparr> ''_'' 5
   = Ret (\<lparr>oor_Body = [], oor_Lookback = 2, oor_MinChunkSize = 3, oor_spooled = ''ello'',
           oor_spoolOffset = 1, oor_noMore = True\<rparr>, ''_'', 0, Some ErrEOF)"
  by (simp add: reader_ReadAt_def readFetch_def ReadFull_def IsEOF_def copySlice_def Let_def)

section \<open>Properties of the multipart upload writer\<close>

lemma OffsetRanges_Add_fresh:
  assumes "n \<le> P"
  shows "OffsetRanges_Add (NewOffsetRanges (int P)) 0 (int n) = replicate n True @ replicate (P - n) False"
  using assms
  by (auto simp add: OffsetRanges_Add_def NewOffsetRanges_def list_eq_iff_nth_eq nth_enumerate_eq nth_append)

lemma GetMaxValidOffset_prefix:
  "GetMaxValidOffset (replicate n True @ replicate m False) = (if n = 0 then - 1 else int n)"
proof -
  have "takeWhile (\<lambda>b. b) (replicate n True @ replicate m False) = replicate n True"
    by (cases m) (simp_all add: takeWhile_append2 takeWhile_tail)
  then show ?thesis by (simp add: GetMaxValidOffset_def)
qed

lemma writeLoop_done: "pending \<le> 0 \<Longrightarrow> writeLoop env u buf pn po pending bo = Ret (u, int (length buf), None)"
  by (subst writeLoop.simps) simp

lemma wrap64_id: "- (2 ^ 63) \<le> x \<Longrightarrow> x < 2 ^ 63 \<Longrightarrow> wrap64 x = x"
  by (simp add: wrap64_def)

lemma quot_nonneg: "0 \<le> a \<Longrightarrow> 0 < b \<Longrightarrow> quot a b = a div b"
  by (simp add: quot_def)

lemma rem_nonneg: "0 \<le> a \<Longrightarrow> 0 < b \<Longrightarrow> rem a b = a mod b"
  by (simp add: rem_def quot_nonneg minus_div_mult_eq_mod)

text \<open>
  Claim C1, as the code has it. On a writer without parts, upload and error, one
  \<open>WriteAt(buf, 0)\<close> of a buffer that is not empty and strictly shorter than the part
  size (within the maximal object size, the pool handing out a buffer, PutObject
  succeeding), followed by \<open>Close\<close>: \<open>WriteAt\<close> returns \<open>(len(buf), nil)\<close>, \<open>Close\<close>
  returns no error, and the only request to the object store is one PutObject with body
  \<open>buf\<close>.
\<close>

theorem single_part_put:
  assumes fresh: "u_parts u = []" "u_multiPartUploadID u = None" "u_err u = None"
    and len: "0 < length buf" "length buf < u_BufSize u" "int (length buf) < 2 ^ 63"
    and size: "u_MaxObjectSize u < 0 \<or> int (length buf) \<le> u_MaxObjectSize u"
    and pool: "w_PoolGet env (u_calls u) = Inr b" "length b = u_BufSize u"
    and put: "\<forall>tr. w_PutObject env tr buf = None"
  shows "\<exists>u1 u2. WriteAt env u buf 0 = Ret (u1, int (length buf), None) \<and>
           Close env u1 = Ret (u2, None) \<and>
           filter isS3Call (drop (length (u_calls u)) (u_calls u2)) = [PutObject buf]"
proof -
  let ?n = "length buf"
  let ?P = "u_BufSize u"
  let ?part = "\<lparr>part_content = buf @ drop ?n b, part_partNumber = 1,
                part_o = replicate ?n True @ replicate (?P - ?n) False,
                part_state = S3PartUploadStateAdding\<rparr>"
  let ?u0 = "u\<lparr>u_InfoSize := (if int ?n > u_InfoSize u then int ?n else u_InfoSize u), u_parts := [None]\<rparr>"
  let ?u1 = "setPart 0 ?part (call PoolGet ?u0)"
  have q: "quot (wrap64 (int ?n - 1)) (int ?P) = 0"
    using len by (simp add: wrap64_id quot_nonneg)
  have w: "wrap64 (int ?n) = int ?n" using len by (simp add: wrap64_id)
  have copy: "part_copy \<lparr>part_content = b, part_partNumber = 1, part_o = NewOffsetRanges (int ?P),
                part_state = S3PartUploadStateAdding\<rparr> buf 0 (int ?n) = Ret ?part"
    using len pool OffsetRanges_Add_fresh [of ?n ?P]
    by (simp add: part_copy_def copySlice_def)
  have notfull: "\<not> isFull ?part"
    using len by (simp add: isFull_def IsFull_def GetMaxValidOffset_prefix)
  have step: "writeStep env ?u0 buf 0 0 (int ?n) 0 = Ret (Inl ?u1)"
    using len pool copy notfull
    by (simp add: writeStep_def getPart_def Let_def call_def setPart_def)
  have loop: "writeLoop env ?u0 buf 0 0 (int ?n) 0 = Ret (?u1, int ?n, None)"
    apply (subst writeLoop.simps)
    using step len
    apply (simp add: partCopied_def writeLoop_done)
    done
  have wr: "WriteAt env u buf 0 = Ret (?u1, int ?n, None)"
    using fresh len size q w loop
    by (auto simp add: WriteAt_def Let_def quot_def rem_def)
  have content: "getContent ?part = Inr buf"
    using len by (simp add: getContent_def GetMaxValidOffset_prefix)
  let ?u2 = "setPart 0 (?part\<lparr>part_state := S3PartUploadStateSent\<rparr>)
        (call (PoolPut 1) (call (PutObject buf) ((call (PhantomRemoveByInfoPtr (u_Info u)) ?u1)
                \<lparr>u_PhantomObjectMap := RemoveByInfoPtr (u_PhantomObjectMap u) (u_Info u)\<rparr>)))"
  have cl: "Close env ?u1 = Ret (?u2, None)"
    using fresh put content
    by (simp add: Close_def closeSingle_def s3PutObject_def Let_def call_def setPart_def)
  have f: "filter isS3Call (drop (length (u_calls u)) (u_calls ?u2)) = [PutObject buf]"
    by (simp add: call_def setPart_def)
  from wr cl f show ?thesis by blast
qed

theorem single_part_put_witness:
  "\<exists>u1 u2. WriteAt (okEnv 4) (newWriter 4 100 ''k'' 7) ''abc'' 0 = Ret (u1, 3, None) \<and>
     Close (okEnv 4) u1 = Ret (u2, None) \<and>
     filter isS3Call (u_calls u2) = [PutObject ''abc'']"
  using single_part_put [of "newWriter 4 100 ''k'' 7" "''abc''" "okEnv 4" "replicate 4 (CHR ''.'')"]
  by (simp add: newWriter_def okEnv_def)

text \<open>
  Claim C1 as stated fails for a buffer of exactly the part size: with parts of 4 bytes,
  \<open>WriteAt("abcd", 0)\<close> fills part 1, which is enqueued at once and creates the multipart
  upload; \<open>Close\<close> then uploads the part and completes the upload, and PutObject is never
  called.
\<close>

theorem full_single_part_goes_multipart:
  "WriteAt (okEnv 4) (newWriter 4 100 ''k'' 7) ''abcd'' 0
   = Ret (\<lparr>u_MaxObjectSize = 100, u_BufSize = 4, u_Info = 7, u_InfoSize = 4,
           u_completedParts = [],
           u_parts = [Some \<lparr>part_content = ''abcd'', part_partNumber = 1,
                              part_o = [True, True, True, True],
                              part_state = S3PartUploadStateFull\<rparr>],
           u_multiPartUploadID = Some ''id'', u_err = None, u_uploadGroup = 1,
           u_inflight = [0], u_inSeterr = [], u_PhantomObjectMap = [(''k'', 7)],
           u_calls = [PoolGet, CreateMultipartUpload (Some ''id'')]\<rparr>, 4, None)
   \<and> Close (okEnv 4)
        \<lparr>u_MaxObjectSize = 100, u_BufSize = 4, u_Info = 7, u_InfoSize = 4,
           u_completedParts = [],
           u_parts = [Some \<lparr>part_content = ''abcd'', part_partNumber = 1,
                              part_o = [True, True, True, True],
                              part_state = S3PartUploadStateFull\<rparr>],
           u_multiPartUploadID = Some ''id'', u_err = None, u_uploadGroup = 1,
           u_inflight = [0], u_inSeterr = [], u_PhantomObjectMap = [(''k'', 7)],
           u_calls = [PoolGet, CreateMultipartUpload (Some ''id'')]\<rparr>
   = Ret (\<lparr>u_MaxObjectSize = 100, u_BufSize = 4, u_Info = 7, u_InfoSize = 4,
           u_completedParts = [Some \<lparr>cp_ETag = Some ''etag'', cp_PartNumber = 1\<rparr>],
           u_parts = [Some \<lparr>part_content = ''abcd'', part_partNumber = 1,
                              part_o = [True, True, True, True],
                              part_state = S3PartUploadStateSent\<rparr>],
           u_multiPartUploadID = Some ''id'', u_err = None, u_uploadGroup = 0,
           u_inflight = [], u_inSeterr = [], u_PhantomObjectMap = [],
           u_calls = [PoolGet, CreateMultipartUpload (Some ''id''), PhantomRemoveByInfoPtr 7,
                      UploadPart 1 ''abcd'', PoolPut 1,
                      CompleteMultipartUpload [Some \<lparr>cp_ETag = Some ''etag'', cp_PartNumber = 1\<rparr>]]\<rparr>,
          None)"
proof -
  have a: "WriteAt (okEnv 4) (newWriter 4 100 ''k'' 7) ''abcd'' 0
   = Ret (\<lparr>u_MaxObjectSize = 100, u_BufSize = 4, u_Info = 7, u_InfoSize = 4,
           u_completedParts = [],
           u_parts = [Some \<lparr>part_content = ''abcd'', part_partNumber = 1,
                              part_o = [True, True, True, True],
                              part_state = S3PartUploadStateFull\<rparr>],
           u_multiPartUploadID = Some ''id'', u_err = None, u_uploadGroup = 1,
           u_inflight = [0], u_inSeterr = [], u_PhantomObjectMap = [(''k'', 7)],
           u_calls = [PoolGet, CreateMultipartUpload (Some ''id'')]\<rparr>, 4, None)"
    by code_simp
  have b: "Close (okEnv 4)
        \<lparr>u_MaxObjectSize = 100, u_BufSize = 4, u_Info = 7, u_InfoSize = 4,
           u_completedParts = [],
           u_parts = [Some \<lparr>part_content = ''abcd'', part_partNumber = 1,
                              part_o = [True, True, True, True],
                              part_state = S3PartUploadStateFull\<rparr>],
           u_multiPartUploadID = Some ''id'', u_err = None, u_uploadGroup = 1,
           u_inflight = [0], u_inSeterr = [], u_PhantomObjectMap = [(''k'', 7)],
           u_calls = [PoolGet, CreateMultipartUpload (Some ''id'')]\<rparr>
   = Ret (\<lparr>u_MaxObjectSize = 100, u_BufSize = 4, u_Info = 7, u_InfoSize = 4,
           u_completedParts = [Some \<lparr>cp_ETag = Some ''etag'', cp_PartNumber = 1\<rparr>],
           u_parts = [Some \<lparr>part_content = ''abcd'', part_partNumber = 1,
                              part_o = [True, True, True, True],
                              part_state = S3PartUploadStateSent\<rparr>],
           u_multiPartUploadID = Some ''id'', u_err = None, u_uploadGroup = 0,
           u_inflight = [], u_inSeterr = [], u_PhantomObjectMap = [],
           u_calls = [PoolGet, CreateMultipartUpload (Some ''id''), PhantomRemoveByInfoPtr 7,
                      UploadPart 1 ''abcd'', PoolPut 1,
                      CompleteMultipartUpload [Some \<lparr>cp_ETag = Some ''etag'', cp_PartNumber = 1\<rparr>]]\<rparr>,
          None)"
    by code_simp
  from a b show ?thesis by (rule conjI)
qed

lemma closeParts_length [simp]: "length (fst (closeParts ps)) = length ps"
  by (induction ps) (auto split: prod.splits option.splits)




lemma cancelAddingParts_fields [simp]:
  "u_parts (fst (cancelAddingParts u)) = fst (closeParts (u_parts u))"
  "u_calls (fst (cancelAddingParts u)) = u_calls u @ fst (snd (closeParts (u_parts u)))"
  "snd (cancelAddingParts u) = snd (snd (closeParts (u_parts u)))"
  "u_err (fst (cancelAddingParts u)) = u_err u"
  "u_BufSize (fst (cancelAddingParts u)) = u_BufSize u"
  "u_multiPartUploadID (fst (cancelAddingParts u)) = u_multiPartUploadID u"
  "u_uploadGroup (fst (cancelAddingParts u)) = u_uploadGroup u"
  "u_inflight (fst (cancelAddingParts u)) = u_inflight u"
  "u_inSeterr (fst (cancelAddingParts u)) = u_inSeterr u"
  "u_completedParts (fst (cancelAddingParts u)) = u_completedParts u"
  "u_PhantomObjectMap (fst (cancelAddingParts u)) = u_PhantomObjectMap u"
  "u_MaxObjectSize (fst (cancelAddingParts u)) = u_MaxObjectSize u"
  "u_Info (fst (cancelAddingParts u)) = u_Info u"
  "u_InfoSize (fst (cancelAddingParts u)) = u_InfoSize u"
  by (simp_all add: cancelAddingParts_def split: prod.splits)

lemma s3AbortMultipartUpload_fields [simp]:
  "u_parts (s3AbortMultipartUpload u) = u_parts u"
  "u_calls (s3AbortMultipartUpload u) =
     u_calls u @ (case u_multiPartUploadID u of None \<Rightarrow> [] | Some i \<Rightarrow> [AbortMultipartUpload i])"
  "u_err (s3AbortMultipartUpload u) = u_err u"
  "u_BufSize (s3AbortMultipartUpload u) = u_BufSize u"
  "u_multiPartUploadID (s3AbortMultipartUpload u) = None"
  "u_uploadGroup (s3AbortMultipartUpload u) = u_uploadGroup u"
  "u_inflight (s3AbortMultipartUpload u) = u_inflight u"
  "u_inSeterr (s3AbortMultipartUpload u) = u_inSeterr u"
  "u_completedParts (s3AbortMultipartUpload u) = u_completedParts u"
  "u_PhantomObjectMap (s3AbortMultipartUpload u) = u_PhantomObjectMap u"
  "u_MaxObjectSize (s3AbortMultipartUpload u) = u_MaxObjectSize u"
  "u_Info (s3AbortMultipartUpload u) = u_Info u"
  "u_InfoSize (s3AbortMultipartUpload u) = u_InfoSize u"
  by (simp_all add: s3AbortMultipartUpload_def call_def split: option.splits)

lemma failedWriter_fields [simp]:
  "u_err (failedWriter u e) = Some e"
  "u_BufSize (failedWriter u e) = u_BufSize u"
  "u_multiPartUploadID (failedWriter u e) = None"
  "u_inflight (failedWriter u e) = u_inflight u"
  "u_inSeterr (failedWriter u e) = u_inSeterr u"
  "u_parts (failedWriter u e) = fst (closeParts (u_parts u))"
  "u_calls (failedWriter u e) =
     u_calls u @ (case u_multiPartUploadID u of None \<Rightarrow> [] | Some i \<Rightarrow> [AbortMultipartUpload i])
       @ fst (snd (closeParts (u_parts u)))"
  by (simp_all add: failedWriter_def)

lemma failWrite_eq:
  "failWrite u e = (if heldInSeterr u then Blocked else Ret (failedWriter u e))"
proof -
  have "heldInSeterr (s3AbortMultipartUpload u) = heldInSeterr u"
    by (simp add: heldInSeterr_def)
  then show ?thesis
    by (simp add: failWrite_def failedWriter_def closePartsInStateAdding_def split: prod.splits)
qed


lemma WriteAt_on_error:
  "u_err u = Some e \<Longrightarrow> u_BufSize u \<noteq> 0 \<Longrightarrow>
   WriteAt env u buf off = (if heldInSeterr u then Blocked else Ret (failedWriter u e, 0, Some e))"
  by (simp add: WriteAt_def Let_def failWrite_eq)









lemma call_fields [simp]:
  "u_parts (call ev u) = u_parts u"
  "u_calls (call ev u) = u_calls u @ [ev]"
  "u_err (call ev u) = u_err u"
  "u_BufSize (call ev u) = u_BufSize u"
  "u_multiPartUploadID (call ev u) = u_multiPartUploadID u"
  "u_uploadGroup (call ev u) = u_uploadGroup u"
  "u_inflight (call ev u) = u_inflight u"
  "u_inSeterr (call ev u) = u_inSeterr u"
  "u_completedParts (call ev u) = u_completedParts u"
  "u_PhantomObjectMap (call ev u) = u_PhantomObjectMap u"
  "u_MaxObjectSize (call ev u) = u_MaxObjectSize u"
  "u_Info (call ev u) = u_Info u"
  "u_InfoSize (call ev u) = u_InfoSize u"
  by (simp_all add: call_def)

lemma setPart_fields [simp]:
  "u_parts (setPart k part u) = (u_parts u)[k := Some part]"
  "u_calls (setPart k part u) = u_calls u"
  "u_err (setPart k part u) = u_err u"
  "u_BufSize (setPart k part u) = u_BufSize u"
  "u_multiPartUploadID (setPart k part u) = u_multiPartUploadID u"
  "u_uploadGroup (setPart k part u) = u_uploadGroup u"
  "u_inflight (setPart k part u) = u_inflight u"
  "u_inSeterr (setPart k part u) = u_inSeterr u"
  "u_completedParts (setPart k part u) = u_completedParts u"
  "u_PhantomObjectMap (setPart k part u) = u_PhantomObjectMap u"
  "u_MaxObjectSize (setPart k part u) = u_MaxObjectSize u"
  "u_Info (setPart k part u) = u_Info u"
  "u_InfoSize (setPart k part u) = u_InfoSize u"
  by (simp_all add: setPart_def)

text \<open>
  The two ways a worker runs agree: when nothing comes in between, \<open>uploadPart_begin\<close>
  followed by \<open>uploadPart_end\<close> is \<open>uploadPart\<close>.
\<close>

lemma remove1_appended: "x \<notin> set xs \<Longrightarrow> remove1 x (xs @ [x]) = xs"
  by (induction xs) auto

lemma uploadPart_in_two_steps:
  assumes "uploadPart_begin env u k = Ret u1" and "k \<notin> fst ` set (u_inSeterr u)"
  shows "uploadPart env u k =
     (if u_inSeterr u1 = u_inSeterr u then Ret u1
      else uploadPart_end u1 k (snd (last (u_inSeterr u1))))"
proof -
  let ?u = "u\<lparr>u_inflight := remove1 k (u_inflight u)\<rparr>"
  from assms(1) have k: "k < length (u_parts u)"
    by (auto simp add: uploadPart_begin_def Let_def split: if_splits)
  with assms(1) obtain part where part: "u_parts u ! k = Some part"
    by (auto simp add: uploadPart_begin_def Let_def split: if_splits option.splits)
  show ?thesis
  proof (cases "part_state part = S3PartUploadStateFull")
    case False
    with assms(1) k part have "uploadPart env u k = Ret u1" "u_inSeterr u1 = u_inSeterr u"
      by (auto simp add: uploadPart_begin_def uploadPart_def uploadGroup_Done_def Let_def split: if_splits)
    then show ?thesis by simp
  next
    case True
    with assms(1) k part obtain u2 err where s: "s3UploadPart env ?u part = Ret (u2, err)"
      by (auto simp add: uploadPart_begin_def Let_def split: go.splits)
    have ins: "u_inSeterr u2 = u_inSeterr u"
      using s by (auto simp add: s3UploadPart_def call_def Let_def split: option.splits sum.splits if_splits)
    show ?thesis
    proof (cases err)
      case None
      with assms(1) k part True s ins have "uploadPart env u k = Ret u1" "u_inSeterr u1 = u_inSeterr u"
        by (auto simp add: uploadPart_begin_def uploadPart_def uploadGroup_Done_def Let_def
            setPart_def call_def split: if_splits)
      then show ?thesis by simp
    next
      case (Some e)
      let ?u3 = "setPart k (part\<lparr>part_state := S3PartUploadErrorSending\<rparr>) (call (PoolPut (part_partNumber part)) u2)"
      from assms(1) k part True s Some have u1: "u1 = ?u3\<lparr>u_inSeterr := u_inSeterr u @ [(k, e)]\<rparr>"
        using ins by (simp add: uploadPart_begin_def Let_def)
      from assms(2) have "(k, e) \<notin> set (u_inSeterr u)" by force
      then have r: "remove1 (k, e) (u_inSeterr u @ [(k, e)]) = u_inSeterr u" by (rule remove1_appended)
      have same: "?u3\<lparr>u_inSeterr := u_inSeterr u\<rparr> = ?u3"
        using ins by (simp add: setPart_def call_def)
      have "uploadPart env u k = uploadGroup_Done (seterr e ?u3)"
        using k part True s Some by (simp add: uploadPart_def Let_def)
      moreover have "uploadPart_end u1 k e = uploadGroup_Done (seterr e ?u3)"
        unfolding u1 uploadPart_end_def using r same by (simp add: seterr_def)
      ultimately show ?thesis unfolding u1 by simp
    qed
  qed
qed

lemma WriteAt_blocked_by_worker_in_seterr:
  assumes "u_err u = Some e" "u_BufSize u \<noteq> 0" "heldInSeterr u"
  shows "WriteAt env u buf off = Blocked"
  using assms by (simp add: WriteAt_on_error)

text \<open>
  With two parts of 2 bytes, the first refused by the object store and its error stored,
  the worker of the second part reaches \<^verbatim>\<open>seterr\<close> with the mutex of the part in its hands.
  A \<open>WriteAt\<close> or a \<open>Close\<close> that has taken \<^verbatim>\<open>u.mtx\<close> by then never returns, and neither
  does the worker.
\<close>

lemma failing_path_and_worker_in_seterr_wait_for_each_other:
  "uploadPart_begin (failingUploads 2)
     \<lparr>u_MaxObjectSize = 100, u_BufSize = 2, u_Info = 7, u_InfoSize = 4,
      u_completedParts = [],
      u_parts = [Some \<lparr>part_content = ''ab'', part_partNumber = 1, part_o = [True, True],
                         part_state = S3PartUploadErrorSending\<rparr>,
                 Some \<lparr>part_content = ''cd'', part_partNumber = 2, part_o = [True, True],
                         part_state = S3PartUploadStateFull\<rparr>],
      u_multiPartUploadID = Some ''id'', u_err = Some (ErrUpstream ''part 1 refused''),
      u_uploadGroup = 1, u_inflight = [1], u_inSeterr = [], u_PhantomObjectMap = [(''k'', 7)],
      u_calls = [PoolGet, CreateMultipartUpload (Some ''id''), PoolGet, UploadPart 1 ''ab'',
                 PoolPut 1]\<rparr>
     1 = Ret
     \<lparr>u_MaxObjectSize = 100, u_BufSize = 2, u_Info = 7, u_InfoSize = 4,
      u_completedParts = [],
      u_parts = [Some \<lparr>part_content = ''ab'', part_partNumber = 1, part_o = [True, True],
                         part_state = S3PartUploadErrorSending\<rparr>,
                 Some \<lparr>part_content = ''cd'', part_partNumber = 2, part_o = [True, True],
                         part_state = S3PartUploadErrorSending\<rparr>],
      u_multiPartUploadID = Some ''id'', u_err = Some (ErrUpstream ''part 1 refused''),
      u_uploadGroup = 1, u_inflight = [],
      u_inSeterr = [(1, ErrUpstream ''another part refused'')],
      u_PhantomObjectMap = [(''k'', 7)],
      u_calls = [PoolGet, CreateMultipartUpload (Some ''id''), PoolGet, UploadPart 1 ''ab'',
                 PoolPut 1, UploadPart 2 ''cd'', PoolPut 2]\<rparr>
   \<and> WriteAt (failingUploads 2)
     \<lparr>u_MaxObjectSize = 100, u_BufSize = 2, u_Info = 7, u_InfoSize = 4,
      u_completedParts = [],
      u_parts = [Some \<lparr>part_content = ''ab'', part_partNumber = 1, part_o = [True, True],
                         part_state = S3PartUploadErrorSending\<rparr>,
                 Some \<lparr>part_content = ''cd'', part_partNumber = 2, part_o = [True, True],
                         part_state = S3PartUploadErrorSending\<rparr>],
      u_multiPartUploadID = Some ''id'', u_err = Some (ErrUpstream ''part 1 refused''),
      u_uploadGroup = 1, u_inflight = [],
      u_inSeterr = [(1, ErrUpstream ''another part refused'')],
      u_PhantomObjectMap = [(''k'', 7)],
      u_calls = [PoolGet, CreateMultipartUpload (Some ''id''), PoolGet, UploadPart 1 ''ab'',
                 PoolPut 1, UploadPart 2 ''cd'', PoolPut 2]\<rparr>
     ''xy'' 4 = Blocked
   \<and> Close (failingUploads 2)
     \<lparr>u_MaxObjectSize = 100, u_BufSize = 2, u_Info = 7, u_InfoSize = 4,
      u_completedParts = [],
      u_parts = [Some \<lparr>part_content = ''ab'', part_partNumber = 1, part_o = [True, True],
                         part_state = S3PartUploadErrorSending\<rparr>,
                 Some \<lparr>part_content = ''cd'', part_partNumber = 2, part_o = [True, True],
                         part_state = S3PartUploadErrorSending\<rparr>],
      u_multiPartUploadID = Some ''id'', u_err = Some (ErrUpstream ''part 1 refused''),
      u_uploadGroup = 1, u_inflight = [],
      u_inSeterr = [(1, ErrUpstream ''another part refused'')],
      u_PhantomObjectMap = [(''k'', 7)],
      u_calls = [PoolGet, CreateMultipartUpload (Some ''id''), PoolGet, UploadPart 1 ''ab'',
                 PoolPut 1, UploadPart 2 ''cd'', PoolPut 2]\<rparr>
     = Blocked"
  by code_simp


lemma closeParts_nth:
  "k < length ps \<Longrightarrow>
   fst (closeParts ps) ! k =
     (case ps ! k of
        None \<Rightarrow> None
      | Some p \<Rightarrow> Some (if part_state p = S3PartUploadStateAdding
                         then p\<lparr>part_state := S3PartUploadCancelled\<rparr> else p))"
proof (induction ps arbitrary: k)
  case Nil
  then show ?case by simp
next
  case (Cons a ps)
  obtain ps' evs n where c: "closeParts ps = (ps', evs, n)"
    by (cases "closeParts ps") auto
  show ?case
  proof (cases k)
    case 0
    with c show ?thesis by (simp split: option.splits)
  next
    case (Suc j)
    with Cons.prems have "j < length ps" by simp
    from Cons.IH [OF this] Suc c show ?thesis by (simp split: option.splits)
  qed
qed







lemma s3CreateMultipartUpload_parts:
  "s3CreateMultipartUpload env u = Ret (u', r) \<Longrightarrow> u_parts u' = u_parts u \<and> u_BufSize u' = u_BufSize u"
  by (auto simp add: s3CreateMultipartUpload_def split: sum.splits option.splits)

lemma s3CreateMultipartUpload_cases:
  assumes "s3CreateMultipartUpload env u = Ret (u', r)"
  obtains
    (refused) e where "w_CreateMultipartUpload env (u_calls u) = Inl e"
      "u' = call (CreateMultipartUpload None) u" "r = Some e"
  | (created) uploadId where "w_CreateMultipartUpload env (u_calls u) = Inr (Some uploadId)"
      "u' = (call (CreateMultipartUpload (Some uploadId)) u)\<lparr>u_multiPartUploadID := Some uploadId\<rparr>"
      "r = None"
  using assms
  by (auto simp add: s3CreateMultipartUpload_def split: sum.splits option.splits)

lemma enqueueUpload_cases:
  assumes "enqueueUpload env u k = Ret (u', r)"
  obtains
    (already) part where "k < length (u_parts u)" "u_parts u ! k = Some part"
      "part_state part \<noteq> S3PartUploadStateAdding" "u' = u" "r = None"
  | (refused) part e where "k < length (u_parts u)" "u_parts u ! k = Some part"
      "part_state part = S3PartUploadStateAdding" "u_multiPartUploadID u = None"
      "s3CreateMultipartUpload env u = Ret (u', Some e)" "r = Some e"
  | (sent) part u1 where "k < length (u_parts u)" "u_parts u ! k = Some part"
      "part_state part = S3PartUploadStateAdding"
      "(if u_multiPartUploadID u = None then s3CreateMultipartUpload env u else Ret (u, None)) = Ret (u1, None)"
      "\<not> w_ctxDone env (u_calls u1)"
      "u' = (setPart k (part\<lparr>part_state := S3PartUploadStateFull\<rparr>) u1)
              \<lparr>u_uploadGroup := u_uploadGroup u1 + 1, u_inflight := u_inflight u1 @ [k]\<rparr>"
      "r = None"
  | (cancelled) part u1 where "k < length (u_parts u)" "u_parts u ! k = Some part"
      "part_state part = S3PartUploadStateAdding"
      "(if u_multiPartUploadID u = None then s3CreateMultipartUpload env u else Ret (u, None)) = Ret (u1, None)"
      "w_ctxDone env (u_calls u1)"
      "u' = (setPart k (part\<lparr>part_state := S3PartUploadStateFull\<rparr>) u1)
              \<lparr>u_uploadGroup := u_uploadGroup u1 + 1\<rparr>"
      "r = Some ErrEnqueueCancelled"
proof -
  from assms have k: "k < length (u_parts u)"
    by (auto simp add: enqueueUpload_def split: if_splits)
  with assms obtain part where p: "u_parts u ! k = Some part"
    by (auto simp add: enqueueUpload_def split: if_splits option.splits)
  show ?thesis
  proof (cases "part_state part = S3PartUploadStateAdding")
    case False
    then have "\<not> stateNum (part_state part) < stateNum S3PartUploadStateFull"
      by (cases "part_state part") simp_all
    with assms k p have "u' = u" "r = None" by (simp_all add: enqueueUpload_def)
    with k p False show ?thesis by (intro already) simp_all
  next
    case True
    let ?c = "if u_multiPartUploadID u = None then s3CreateMultipartUpload env u else Ret (u, None)"
    have e: "enqueueUpload env u k =
       (case ?c of
          Panic \<Rightarrow> Panic
        | Blocked \<Rightarrow> Blocked
        | Ret (u1, Some err) \<Rightarrow> Ret (u1, Some err)
        | Ret (u1, None) \<Rightarrow>
            (let u2 = (setPart k (part\<lparr>part_state := S3PartUploadStateFull\<rparr>) u1)
                        \<lparr>u_uploadGroup := u_uploadGroup u1 + 1\<rparr>
             in if w_ctxDone env (u_calls u2) then Ret (u2, Some ErrEnqueueCancelled)
                else Ret (u2\<lparr>u_inflight := u_inflight u2 @ [k]\<rparr>, None)))"
      using k p True by (simp add: enqueueUpload_def)
    from assms e obtain u1 r1 where c: "?c = Ret (u1, r1)"
      by (cases ?c) auto
    show ?thesis
    proof (cases r1)
      case (Some err)
      with assms e c have "u' = u1" "r = Some err" by simp_all
      moreover from c Some have "u_multiPartUploadID u = None" by (auto split: if_splits)
      ultimately show ?thesis using k p True c Some by (intro refused [of part err]) simp_all
    next
      case None
      show ?thesis
      proof (cases "w_ctxDone env (u_calls u1)")
        case isdone: True
        with assms e c None have "u' = (setPart k (part\<lparr>part_state := S3PartUploadStateFull\<rparr>) u1)
              \<lparr>u_uploadGroup := u_uploadGroup u1 + 1\<rparr>" "r = Some ErrEnqueueCancelled"
          by (simp_all add: Let_def)
        with k p True c None isdone show ?thesis by (intro cancelled [of part u1]) simp_all
      next
        case False
        with assms e c None have "u' = (setPart k (part\<lparr>part_state := S3PartUploadStateFull\<rparr>) u1)
              \<lparr>u_uploadGroup := u_uploadGroup u1 + 1, u_inflight := u_inflight u1 @ [k]\<rparr>" "r = None"
          by (simp_all add: Let_def)
        with k p True c None False show ?thesis by (intro sent [of part u1]) simp_all
      qed
    qed
  qed
qed

lemma keeps_create:
  assumes "(if u_multiPartUploadID u = None then s3CreateMultipartUpload env u else Ret (u, None)) = Ret (u1, r)"
  shows "u_parts u1 = u_parts u \<and> u_BufSize u1 = u_BufSize u"
  using assms by (auto split: if_splits elim!: s3CreateMultipartUpload_cases)


lemma getPart_cases:
  assumes "getPart env u pn = res"
  shows "(\<exists>part. u_parts u ! nat pn = Some part \<and> res = Inl (u, part))
       \<or> (u_parts u ! nat pn = None \<and>
          ((\<exists>e. w_PoolGet env (u_calls u) = Inl e \<and> res = Inr e)
         \<or> (\<exists>b. w_PoolGet env (u_calls u) = Inr b \<and>
               res = Inl (setPart (nat pn)
                            \<lparr>part_content = b, part_partNumber = pn + 1,
                             part_o = NewOffsetRanges (int (u_BufSize u)),
                             part_state = S3PartUploadStateAdding\<rparr> (call PoolGet u),
                          \<lparr>part_content = b, part_partNumber = pn + 1,
                             part_o = NewOffsetRanges (int (u_BufSize u)),
                             part_state = S3PartUploadStateAdding\<rparr>))))"
  using assms by (auto simp add: getPart_def Let_def split: option.splits sum.splits)


lemma settled_not_adding:
  "part_state part \<noteq> S3PartUploadStateAdding \<longleftrightarrow>
   \<not> stateNum (part_state part) < stateNum S3PartUploadStateFull"
  by (cases "part_state part") simp_all

lemma writeStep_cases:
  assumes "writeStep env u buf pn po pending bo = Ret res"
  obtains
    (settled) part where
      "0 \<le> pn" "nat pn < length (u_parts u)"
      "u_parts u ! nat pn = Some part" "part_state part \<noteq> S3PartUploadStateAdding" "res = Inl u"
  | (nobuffer) e where
      "0 \<le> pn" "nat pn < length (u_parts u)" "u_parts u ! nat pn = None"
      "w_PoolGet env (u_calls u) = Inl e" "\<not> heldInSeterr u" "res = Inr (failedWriter u e, e)"
  | (copied) u1 part part' where
      "0 \<le> pn" "nat pn < length (u_parts u)"
      "getPart env u pn = Inl (u1, part)" "part_state part = S3PartUploadStateAdding"
      "0 \<le> bo" "0 \<le> partCopied (int (u_BufSize u)) po pending"
      "bo + partCopied (int (u_BufSize u)) po pending \<le> int (length buf)"
      "part_copy part (take (nat (partCopied (int (u_BufSize u)) po pending)) (drop (nat bo) buf)) po
         (po + partCopied (int (u_BufSize u)) po pending) = Ret part'"
      "\<not> isFull part'" "res = Inl (setPart (nat pn) part' u1)"
  | (enqueued) u1 part part' u3 r where
      "0 \<le> pn" "nat pn < length (u_parts u)"
      "getPart env u pn = Inl (u1, part)" "part_state part = S3PartUploadStateAdding"
      "0 \<le> bo" "0 \<le> partCopied (int (u_BufSize u)) po pending"
      "bo + partCopied (int (u_BufSize u)) po pending \<le> int (length buf)"
      "part_copy part (take (nat (partCopied (int (u_BufSize u)) po pending)) (drop (nat bo) buf)) po
         (po + partCopied (int (u_BufSize u)) po pending) = Ret part'"
      "isFull part'" "enqueueUpload env (setPart (nat pn) part' u1) (nat pn) = Ret (u3, r)"
      "res = (case r of None \<Rightarrow> Inl u3 | Some e \<Rightarrow> Inr (failedWriter u3 e, e))"
      "r \<noteq> None \<longrightarrow> \<not> heldInSeterr u3"
proof -
  from assms have pn: "0 \<le> pn" "nat pn < length (u_parts u)"
    by (auto simp add: writeStep_def Let_def split: if_splits)
  then have inrange: "\<not> (pn < 0 \<or> pn \<ge> int (length (u_parts u)))" by auto
  show ?thesis
  proof (cases "getPart env u pn")
    case (Inr e)
    with assms inrange have "\<not> heldInSeterr u" "res = Inr (failedWriter u e, e)"
      by (auto simp add: writeStep_def Let_def failWrite_eq split: if_splits)
    moreover from getPart_cases [OF Inr] have "u_parts u ! nat pn = None"
      "w_PoolGet env (u_calls u) = Inl e" by auto
    ultimately show ?thesis using pn by (intro nobuffer) simp_all
  next
    case (Inl ok)
    obtain u1 part where ok: "ok = (u1, part)" by (cases ok)
    show ?thesis
    proof (cases "part_state part = S3PartUploadStateAdding")
      case False
      with getPart_cases [OF Inl [unfolded ok]] have e: "u_parts u ! nat pn = Some part" "u1 = u"
        by auto
      from False have "\<not> stateNum (part_state part) < stateNum S3PartUploadStateFull"
        by (simp add: settled_not_adding)
      with assms inrange Inl ok e have "res = Inl u" by (simp add: writeStep_def Let_def)
      with pn e False show ?thesis by (intro settled) simp_all
    next
      case True
      let ?pc = "partCopied (int (u_BufSize u)) po pending"
      have pof: "(if po + pending > int (u_BufSize u) then int (u_BufSize u) else po + pending) = po + ?pc"
        by (simp add: partCopied_def)
      from True have lt: "stateNum (part_state part) < stateNum S3PartUploadStateFull" by simp
      have ws: "writeStep env u buf pn po pending bo =
          (if bo < 0 \<or> ?pc < 0 \<or> bo + ?pc > int (length buf) then Panic
           else case part_copy part (take (nat ?pc) (drop (nat bo) buf)) po (po + ?pc) of
              Panic \<Rightarrow> Panic | Blocked \<Rightarrow> Blocked
            | Ret part' \<Rightarrow>
                if isFull part' then
                  (case enqueueUpload env (setPart (nat pn) part' u1) (nat pn) of
                     Panic \<Rightarrow> Panic | Blocked \<Rightarrow> Blocked
                   | Ret (u3, Some err) \<Rightarrow>
                       (case failWrite u3 err of
                          Panic \<Rightarrow> Panic | Blocked \<Rightarrow> Blocked
                        | Ret u' \<Rightarrow> Ret (Inr (u', err)))
                   | Ret (u3, None) \<Rightarrow> Ret (Inl u3))
                else Ret (Inl (setPart (nat pn) part' u1)))"
        using inrange Inl ok lt unfolding writeStep_def Let_def pof
        by (simp add: partCopied_def)
      from assms ws have b: "0 \<le> bo" "0 \<le> ?pc" "bo + ?pc \<le> int (length buf)"
        by (auto split: if_splits)
      with assms ws obtain part' where
        c: "part_copy part (take (nat ?pc) (drop (nat bo) buf)) po (po + ?pc) = Ret part'"
        by (auto split: go.splits)
      show ?thesis
      proof (cases "isFull part'")
        case False
        with assms ws b c have "res = Inl (setPart (nat pn) part' u1)" by simp
        with pn Inl ok True b c False show ?thesis by (intro copied) simp_all
      next
        case full: True
        with assms ws b c obtain u3 r where
          q: "enqueueUpload env (setPart (nat pn) part' u1) (nat pn) = Ret (u3, r)"
          by (auto split: go.splits)
        with assms ws b c full have "res = (case r of None \<Rightarrow> Inl u3 | Some e \<Rightarrow> Inr (failedWriter u3 e, e))"
          "r \<noteq> None \<longrightarrow> \<not> heldInSeterr u3"
          by (auto simp add: failWrite_eq split: option.splits if_splits)
        with pn Inl ok True b c full q show ?thesis by (intro enqueued) simp_all
      qed
    qed
  qed
qed



lemma writeLoop_Ret_cases:
  assumes "writeLoop env u buf pn po pending bo = Ret (u', n, r)"
  obtains
    (finished) "pending \<le> 0" "u' = u" "n = int (length buf)" "r = None"
  | (failed) e where "0 < pending" "u_BufSize u \<noteq> 0"
      "writeStep env u buf pn po pending bo = Ret (Inr (u', e))" "n = 0" "r = Some e"
  | (continue) u1 where "0 < pending" "u_BufSize u \<noteq> 0"
      "writeStep env u buf pn po pending bo = Ret (Inl u1)"
      "writeLoop env u1 buf (pn + 1) 0 (pending - partCopied (int (u_BufSize u)) po pending)
         (bo + partCopied (int (u_BufSize u)) po pending) = Ret (u', n, r)"
  using assms
  by (subst (asm) writeLoop.simps) (auto split: if_splits go.splits sum.splits prod.splits)




lemma touched_part_has_byte:
  fixes P :: int
  assumes "0 < P" "0 \<le> off" "off div P \<le> k" "k * P < off + int n" "0 < n"
  shows "\<exists>j<n. (off + int j) div P = k"
proof (cases "k * P \<le> off")
  case True
  from True assms(1) have "(k * P) div P \<le> off div P" by (intro zdiv_mono1) simp_all
  with assms(1) have "k \<le> off div P" by simp
  with assms have "off div P = k" by simp
  with assms(5) show ?thesis by (intro exI [of _ 0]) simp
next
  case False
  let ?j = "nat (k * P - off)"
  from False assms have "?j < n" by auto
  moreover from False assms have "(off + int ?j) div P = k" by simp
  ultimately show ?thesis by blast
qed

lemma WriteAt_normal:
  assumes "u_err u = None" and "u_BufSize u \<noteq> 0" and "0 \<le> off"
    and "off + int (length buf) < 2 ^ 63"
    and "u_MaxObjectSize u < 0 \<or> off + int (length buf) \<le> u_MaxObjectSize u"
    and "buf \<noteq> []"
  shows "WriteAt env u buf off =
     writeLoop env
       (u\<lparr>u_InfoSize := (if off + int (length buf) > u_InfoSize u then off + int (length buf)
                           else u_InfoSize u),
          u_parts := u_parts u @ replicate
             (nat ((off + int (length buf) - 1) div int (u_BufSize u) + 1) - length (u_parts u)) None\<rparr>)
       buf (off div int (u_BufSize u)) (off mod int (u_BufSize u)) (int (length buf)) 0"
proof -
  let ?P = "int (u_BufSize u)"
  let ?n = "int (length buf)"
  from assms have w: "wrap64 (off + ?n) = off + ?n" "wrap64 (off + ?n - 1) = off + ?n - 1"
    by (simp_all add: wrap64_id)
  from assms have n: "0 < ?n" by simp
  from assms(3) n have nn: "0 \<le> off + ?n - 1" by linarith
  from assms(2) have P: "0 < ?P" by simp
  from assms(3) P nn have q: "quot off ?P = off div ?P" "rem off ?P = off mod ?P"
    "quot (off + ?n - 1) ?P = (off + ?n - 1) div ?P"
    by (simp_all only: quot_nonneg rem_nonneg)
  have ext: "(if int (length ps) \<le> m then ps @ replicate (nat (m + 1) - length ps) None else ps)
      = ps @ replicate (nat (m + 1) - length ps) (None :: S3PartToUpload option)" for ps m
    by auto
  show ?thesis
    using assms(1,2,5) ext [of "u_parts u" "(off + ?n - 1) div ?P"]
    unfolding WriteAt_def Let_def w q
    by (auto simp add: not_le)
qed




lemma part_copy_Ret:
  assumes "part_copy part src start fin = Ret part'" and "int (length src) = fin - start"
  shows "0 \<le> start" "start \<le> fin" "fin \<le> int (length (part_content part))"
    "part_state part' = part_state part" "part_partNumber part' = part_partNumber part"
    "length (part_content part') = length (part_content part)"
    "\<forall>t < length src. part_content part' ! (nat start + t) = src ! t"
proof -
  from assms(1) show r: "0 \<le> start" "start \<le> fin" "fin \<le> int (length (part_content part))"
    by (auto simp add: part_copy_def split: if_splits)
  from assms(2) r have n: "min (nat (fin - start)) (length src) = length src" by simp
  from assms(1) r have p: "part' = part\<lparr>part_content :=
                        copySlice (part_content part) (nat start)
                          (min (nat (fin - start)) (length src)) src 0,
                      part_o := OffsetRanges_Add (part_o part) start fin\<rparr>"
    by (auto simp add: part_copy_def split: if_splits)
  from p show "part_state part' = part_state part" "part_partNumber part' = part_partNumber part"
    by simp_all
  from assms(2) r have l: "nat start + length src \<le> length (part_content part)" by linarith
  from p n l show "length (part_content part') = length (part_content part)"
    by (simp add: copySlice_def)
  from p n l r show "\<forall>t < length src. part_content part' ! (nat start + t) = src ! t"
    by (auto simp add: copySlice_def nth_append)
qed

lemma enqueueUpload_slot:
  assumes "enqueueUpload env u k = Ret (u', r)"
  shows "length (u_parts u') = length (u_parts u) \<and> u_BufSize u' = u_BufSize u \<and>
    (\<forall>j. j \<noteq> k \<longrightarrow> u_parts u' ! j = u_parts u ! j) \<and>
    (\<exists>p. u_parts u ! k = Some p \<and>
         (u_parts u' ! k = Some p \<or> u_parts u' ! k = Some (p\<lparr>part_state := S3PartUploadStateFull\<rparr>)))"
  using assms
proof (cases rule: enqueueUpload_cases)
  case (already part)
  then show ?thesis by simp
next
  case (refused part e)
  then show ?thesis by (auto elim!: s3CreateMultipartUpload_cases)
next
  case (sent part u1)
  with keeps_create [OF sent(4)] show ?thesis by simp
next
  case (cancelled part u1)
  with keeps_create [OF cancelled(4)] show ?thesis by simp
qed

lemma getPart_slot:
  assumes "getPart env u pn = Inl (u1, part)" and "nat pn < length (u_parts u)"
  shows "length (u_parts u1) = length (u_parts u)" "u_BufSize u1 = u_BufSize u"
    "\<forall>j. j \<noteq> nat pn \<longrightarrow> u_parts u1 ! j = u_parts u ! j"
    "u_parts u1 ! nat pn = Some part"
    "u_parts u ! nat pn = None \<longrightarrow> part_partNumber part = pn + 1"
    "u_parts u ! nat pn \<noteq> None \<longrightarrow> u_parts u ! nat pn = Some part"
  using getPart_cases [OF assms(1)] assms(2) by auto

lemma slice_nth:
  assumes "0 \<le> bo" "0 \<le> pc" "bo + pc \<le> int (length buf)"
  shows "int (length (take (nat pc) (drop (nat bo) buf))) = pc"
    and "\<forall>t < nat pc. take (nat pc) (drop (nat bo) buf) ! t = buf ! (nat bo + t)"
  using assms by auto

lemma writeStep_slot:
  assumes "writeStep env u buf pn po pending bo = Ret (Inl u1)"
  shows "0 \<le> pn \<and> nat pn < length (u_parts u) \<and> length (u_parts u1) = length (u_parts u) \<and>
     u_BufSize u1 = u_BufSize u \<and>
     (\<forall>j. j \<noteq> nat pn \<longrightarrow> u_parts u1 ! j = u_parts u ! j) \<and>
     (\<exists>p. u_parts u1 ! nat pn = Some p \<and>
        (u_parts u ! nat pn = None \<longrightarrow> part_partNumber p = pn + 1) \<and>
        ((case u_parts u ! nat pn of None \<Rightarrow> True
          | Some q \<Rightarrow> part_state q = S3PartUploadStateAdding) \<longrightarrow>
           0 \<le> po \<and>
           (\<forall>t < nat (partCopied (int (u_BufSize u)) po pending).
              part_content p ! (nat po + t) = buf ! (nat bo + t))))"
  using assms
proof (cases rule: writeStep_cases)
  case (settled part)
  then show ?thesis by simp
next
  case (nobuffer e)
  then show ?thesis by simp
next
  case (copied u0 part part')
  let ?pc = "partCopied (int (u_BufSize u)) po pending"
  let ?src = "take (nat ?pc) (drop (nat bo) buf)"
  note g = getPart_slot [OF copied(3) copied(2)]
  note s = slice_nth [OF copied(5) copied(6) copied(7)]
  have len: "int (length ?src) = (po + ?pc) - po" using s(1) by simp
  note c = part_copy_Ret [OF copied(8) len]
  have bytes: "\<forall>t < nat ?pc. part_content part' ! (nat po + t) = buf ! (nat bo + t)"
    using c(7) s by simp
  from copied(10) have u1: "u1 = setPart (nat pn) part' u0" by simp
  show ?thesis
    using copied(1,2) g c(1,5) bytes unfolding u1 by simp
next
  case (enqueued u0 part part' u3 r)
  let ?pc = "partCopied (int (u_BufSize u)) po pending"
  let ?src = "take (nat ?pc) (drop (nat bo) buf)"
  note g = getPart_slot [OF enqueued(3) enqueued(2)]
  note s = slice_nth [OF enqueued(5) enqueued(6) enqueued(7)]
  have len: "int (length ?src) = (po + ?pc) - po" using s(1) by simp
  note c = part_copy_Ret [OF enqueued(8) len]
  have bytes: "\<forall>t < nat ?pc. part_content part' ! (nat po + t) = buf ! (nat bo + t)"
    using c(7) s by simp
  from enqueued(11) have u1: "u1 = u3" by (cases r) simp_all
  note q = enqueueUpload_slot [OF enqueued(10)]
  from q g enqueued(2) have slot: "u_parts u3 ! nat pn = Some part' \<or>
      u_parts u3 ! nat pn = Some (part'\<lparr>part_state := S3PartUploadStateFull\<rparr>)"
    by auto
  from q g have others: "\<forall>j. j \<noteq> nat pn \<longrightarrow> u_parts u3 ! j = u_parts u ! j" by simp
  from q g have sizes: "length (u_parts u3) = length (u_parts u)" "u_BufSize u3 = u_BufSize u"
    by simp_all
  from slot show ?thesis
  proof
    assume "u_parts u3 ! nat pn = Some part'"
    with enqueued(1,2) g c(1,5) bytes others sizes show ?thesis unfolding u1 by simp
  next
    assume "u_parts u3 ! nat pn = Some (part'\<lparr>part_state := S3PartUploadStateFull\<rparr>)"
    with enqueued(1,2) g c(1,5) bytes others sizes show ?thesis unfolding u1 by simp
  qed
qed

lemma writeLoop_frame:
  assumes "writeLoop env u buf pn po pending bo = Ret (u', n, None)" and "0 \<le> pn"
  shows "length (u_parts u') = length (u_parts u) \<and> u_BufSize u' = u_BufSize u \<and>
         (\<forall>k < nat pn. u_parts u' ! k = u_parts u ! k)"
  using assms
proof (induction env u buf pn po pending bo rule: writeLoop.induct)
  case (1 env u buf pn po pending bo)
  from "1.prems"(1) show ?case
  proof (cases rule: writeLoop_Ret_cases)
    case finished
    then show ?thesis by simp
  next
    case (failed e)
    then show ?thesis by simp
  next
    case (continue u1)
    note s = writeStep_slot [OF continue(3)]
    have "length (u_parts u') = length (u_parts u1) \<and> u_BufSize u' = u_BufSize u1 \<and>
         (\<forall>k < nat (pn + 1). u_parts u' ! k = u_parts u1 ! k)"
      using continue "1.prems"(2) by (intro "1.IH" [of "Inl u1" u1]) simp_all
    with s "1.prems"(2) show ?thesis by auto
  qed
qed

lemma div_mod_in_part:
  fixes P :: int
  assumes "0 \<le> r" "r < P"
  shows "(pn * P + r) div P = pn" "(pn * P + r) mod P = r"
  using assms by simp_all

lemma writeLoop_bytes:
  assumes "writeLoop env u buf pn po pending bo = Ret (u', n, None)"
    and "0 \<le> pn" "0 \<le> po" "po < int (u_BufSize u)" "0 \<le> bo"
    and "bo + pending = int (length buf)" "0 \<le> pending"
  shows "\<forall>j. nat bo \<le> j \<and> j < length buf \<longrightarrow>
      nat ((pn * int (u_BufSize u) + po + (int j - bo)) div int (u_BufSize u)) < length (u_parts u') \<and>
      (\<exists>p. u_parts u' ! nat ((pn * int (u_BufSize u) + po + (int j - bo)) div int (u_BufSize u)) = Some p \<and>
         (u_parts u ! nat ((pn * int (u_BufSize u) + po + (int j - bo)) div int (u_BufSize u)) = None \<longrightarrow>
            part_partNumber p = (pn * int (u_BufSize u) + po + (int j - bo)) div int (u_BufSize u) + 1) \<and>
         ((case u_parts u ! nat ((pn * int (u_BufSize u) + po + (int j - bo)) div int (u_BufSize u)) of
             None \<Rightarrow> True | Some q \<Rightarrow> part_state q = S3PartUploadStateAdding) \<longrightarrow>
            part_content p ! nat ((pn * int (u_BufSize u) + po + (int j - bo)) mod int (u_BufSize u)) = buf ! j))"
  using assms
proof (induction env u buf pn po pending bo rule: writeLoop.induct)
  case (1 env u buf pn po pending bo)
  let ?P = "int (u_BufSize u)"
  note inv = "1.prems"(2-7)
  from "1.prems"(1) show ?case
  proof (cases rule: writeLoop_Ret_cases)
    case finished
    with inv have "\<not> (nat bo \<le> j \<and> j < length buf)" for j by linarith
    then show ?thesis by blast
  next
    case (failed e)
    then show ?thesis by simp
  next
    case (continue u1)
    let ?pc = "partCopied ?P po pending"
    note s = writeStep_slot [OF continue(3)]
    from s have sz: "u_BufSize u1 = u_BufSize u" by simp
    from continue(1) inv have pc: "0 < ?pc" "?pc \<le> pending" "po + ?pc \<le> ?P"
      by (simp_all add: partCopied_def)
    note fr = writeLoop_frame [OF continue(4)]
    from inv have pn1: "0 \<le> pn + 1" by simp
    have IH: "\<forall>j. nat (bo + ?pc) \<le> j \<and> j < length buf \<longrightarrow>
      nat (((pn + 1) * ?P + 0 + (int j - (bo + ?pc))) div ?P) < length (u_parts u') \<and>
      (\<exists>p. u_parts u' ! nat (((pn + 1) * ?P + 0 + (int j - (bo + ?pc))) div ?P) = Some p \<and>
         (u_parts u1 ! nat (((pn + 1) * ?P + 0 + (int j - (bo + ?pc))) div ?P) = None \<longrightarrow>
            part_partNumber p = ((pn + 1) * ?P + 0 + (int j - (bo + ?pc))) div ?P + 1) \<and>
         ((case u_parts u1 ! nat (((pn + 1) * ?P + 0 + (int j - (bo + ?pc))) div ?P) of
             None \<Rightarrow> True | Some q \<Rightarrow> part_state q = S3PartUploadStateAdding) \<longrightarrow>
            part_content p ! nat (((pn + 1) * ?P + 0 + (int j - (bo + ?pc))) mod ?P) = buf ! j))"
      using continue(1,2,3,4) inv pc
      by (intro "1.IH" [of "Inl u1" u1, unfolded sz]) simp_all
    show ?thesis
    proof (intro allI impI)
      fix j assume j: "nat bo \<le> j \<and> j < length buf"
      let ?pos = "pn * ?P + po + (int j - bo)"
      show "nat (?pos div ?P) < length (u_parts u') \<and>
        (\<exists>p. u_parts u' ! nat (?pos div ?P) = Some p \<and>
         (u_parts u ! nat (?pos div ?P) = None \<longrightarrow> part_partNumber p = ?pos div ?P + 1) \<and>
         ((case u_parts u ! nat (?pos div ?P) of
             None \<Rightarrow> True | Some q \<Rightarrow> part_state q = S3PartUploadStateAdding) \<longrightarrow>
            part_content p ! nat (?pos mod ?P) = buf ! j))"
      proof (cases "int j < bo + ?pc")
        case True
        let ?r = "po + (int j - bo)"
        from True j inv pc have r: "0 \<le> ?r" "?r < ?P" by linarith+
        have e: "?pos = pn * ?P + ?r" by simp
        have dm: "?pos div ?P = pn" "?pos mod ?P = ?r"
          unfolding e by (rule div_mod_in_part [OF r])+
        from fr [OF pn1] inv have same: "u_parts u' ! nat pn = u_parts u1 ! nat pn"
          and len: "length (u_parts u') = length (u_parts u1)"
          by simp_all
        from True j inv have t: "nat (int j - bo) < nat ?pc" by linarith
        from j inv have idx: "nat po + nat (int j - bo) = nat ?r" "nat bo + nat (int j - bo) = j"
          by linarith+
        from s obtain p where p: "u_parts u1 ! nat pn = Some p"
          "u_parts u ! nat pn = None \<longrightarrow> part_partNumber p = pn + 1"
          "(case u_parts u ! nat pn of None \<Rightarrow> True
            | Some q \<Rightarrow> part_state q = S3PartUploadStateAdding) \<longrightarrow>
           (\<forall>t < nat ?pc. part_content p ! (nat po + t) = buf ! (nat bo + t))"
          by (elim conjE exE) (rule that, assumption, assumption, simp)
        from p(3) t idx have bytes: "(case u_parts u ! nat pn of None \<Rightarrow> True
            | Some q \<Rightarrow> part_state q = S3PartUploadStateAdding) \<longrightarrow>
            part_content p ! nat ?r = buf ! j"
          by metis
        from s len same p(1,2) bytes show ?thesis unfolding dm by simp
      next
        case False
        with j inv pc have more: "?pc < pending" by linarith
        then have pcv: "?pc = ?P - po" by (simp add: partCopied_def split: if_splits)
        have pos': "(pn + 1) * ?P + 0 + (int j - (bo + ?pc)) = ?pos"
          unfolding pcv by (simp add: algebra_simps)
        from False j inv have j': "nat (bo + ?pc) \<le> j \<and> j < length buf" by linarith
        from False inv pcv have "(pn + 1) * ?P \<le> ?pos" by (simp add: algebra_simps)
        moreover from inv have P: "0 < ?P" by linarith
        ultimately have "((pn + 1) * ?P) div ?P \<le> ?pos div ?P" by (intro zdiv_mono1)
        with P have "pn + 1 \<le> ?pos div ?P" by simp
        with inv have ne: "nat (?pos div ?P) \<noteq> nat pn" by linarith
        with s have same: "u_parts u1 ! nat (?pos div ?P) = u_parts u ! nat (?pos div ?P)" by simp
        from IH [rule_format, OF j'] show ?thesis unfolding pos' same .
      qed
    qed
  qed
qed

lemma writeLoop_count:
  "writeLoop env u buf pn po pending bo = Ret (u', n, None) \<Longrightarrow> n = int (length buf)"
proof (induction env u buf pn po pending bo rule: writeLoop.induct)
  case (1 env u buf pn po pending bo)
  from "1.prems" show ?case
  proof (cases rule: writeLoop_Ret_cases)
    case finished
    then show ?thesis by simp
  next
    case (failed e)
    then show ?thesis by simp
  next
    case (continue u1)
    then show ?thesis by (intro "1.IH" [of "Inl u1" u1]) simp_all
  qed
qed

lemma numbered_iff:
  "partsNumberedByPosition u \<longleftrightarrow>
     (\<forall>k < length (u_parts u). \<forall>p. u_parts u ! k = Some p \<longrightarrow> part_partNumber p = int k + 1)"
proof -
  have "list_all (\<lambda>(k, slot). case slot of None \<Rightarrow> True | Some p \<Rightarrow> part_partNumber p = int k + 1)
       (enumerate 0 ps) \<longleftrightarrow>
     (\<forall>k < length ps. \<forall>p. ps ! k = Some p \<longrightarrow> part_partNumber p = int k + 1)" for ps :: "S3PartToUpload option list"
    by (auto simp add: list_all_length nth_enumerate_eq split: option.splits)
  then show ?thesis by (simp add: partsNumberedByPosition_def)
qed

lemma numbered_failedWriter:
  "partsNumberedByPosition u \<Longrightarrow> partsNumberedByPosition (failedWriter u e)"
  by (auto simp add: numbered_iff closeParts_nth split: option.splits if_splits)

lemma numbered_setPart:
  assumes "partsNumberedByPosition u" and "part_partNumber part = int k + 1"
  shows "partsNumberedByPosition (setPart k part u)"
  unfolding numbered_iff
proof (intro allI impI)
  fix j p assume j: "j < length (u_parts (setPart k part u))" "u_parts (setPart k part u) ! j = Some p"
  show "part_partNumber p = int j + 1"
  proof (cases "j = k")
    case True
    with j assms(2) show ?thesis by simp
  next
    case False
    with j have "j < length (u_parts u)" "u_parts u ! j = Some p" by simp_all
    with assms(1) show ?thesis by (simp add: numbered_iff)
  qed
qed

lemma numbered_parts_eq:
  "u_parts u' = u_parts u \<Longrightarrow> partsNumberedByPosition u' = partsNumberedByPosition u"
  by (simp add: numbered_iff)

lemma numbered_enqueueUpload:
  assumes "enqueueUpload env u k = Ret (u', r)" and "partsNumberedByPosition u"
  shows "partsNumberedByPosition u'"
proof -
  note q = enqueueUpload_slot [OF assms(1)]
  show ?thesis
    unfolding numbered_iff
  proof (intro allI impI)
    fix j p assume j: "j < length (u_parts u')" "u_parts u' ! j = Some p"
    show "part_partNumber p = int j + 1"
    proof (cases "j = k")
      case True
      from q obtain p0 where p0: "u_parts u ! k = Some p0"
        "u_parts u' ! k = Some p0 \<or> u_parts u' ! k = Some (p0\<lparr>part_state := S3PartUploadStateFull\<rparr>)"
        by blast
      from p0(2) j True have "part_partNumber p = part_partNumber p0" by auto
      with assms(2) p0(1) j(1) q True show ?thesis by (simp add: numbered_iff)
    next
      case False
      with q j have "u_parts u ! j = Some p" "j < length (u_parts u)" by simp_all
      with assms(2) show ?thesis by (simp add: numbered_iff)
    qed
  qed
qed

lemma numbered_getPart:
  assumes "getPart env u pn = Inl (u1, part)" and "nat pn < length (u_parts u)" and "0 \<le> pn"
    and "partsNumberedByPosition u"
  shows "partsNumberedByPosition u1 \<and> part_partNumber part = pn + 1"
proof (cases "u_parts u ! nat pn")
  case None
  with getPart_cases [OF assms(1)] obtain b where
    u1: "u1 = setPart (nat pn) part (call PoolGet u)" and
    part: "part = \<lparr>part_content = b, part_partNumber = pn + 1,
                             part_o = NewOffsetRanges (int (u_BufSize u)),
                             part_state = S3PartUploadStateAdding\<rparr>"
    by auto
  from assms(4) have "partsNumberedByPosition (call PoolGet u)"
    by (simp add: numbered_iff)
  with part assms(3) have "partsNumberedByPosition (setPart (nat pn) part (call PoolGet u))"
    by (intro numbered_setPart) simp_all
  with u1 part show ?thesis by simp
next
  case (Some p)
  with getPart_cases [OF assms(1)] have "u1 = u" "part = p" by auto
  with Some assms show ?thesis by (simp add: numbered_iff)
qed

lemma numbered_writeStep:
  assumes "writeStep env u buf pn po pending bo = Ret res" and "partsNumberedByPosition u"
  shows "partsNumberedByPosition (case res of Inl u' \<Rightarrow> u' | Inr (u', e) \<Rightarrow> u')"
  using assms(1)
proof (cases rule: writeStep_cases)
  case (settled part)
  with assms(2) show ?thesis by simp
next
  case (nobuffer e)
  with assms(2) show ?thesis by (simp add: numbered_failedWriter)
next
  case (copied u1 part part')
  note g = numbered_getPart [OF copied(3) copied(2) copied(1) assms(2)]
  note s = slice_nth [OF copied(5) copied(6) copied(7)]
  have len: "int (length (take (nat (partCopied (int (u_BufSize u)) po pending)) (drop (nat bo) buf)))
     = (po + partCopied (int (u_BufSize u)) po pending) - po" using s(1) by simp
  note c = part_copy_Ret [OF copied(8) len]
  from g c(5) copied(1) have "partsNumberedByPosition (setPart (nat pn) part' u1)"
    by (intro numbered_setPart) simp_all
  with copied(10) show ?thesis by simp
next
  case (enqueued u1 part part' u3 r)
  note g = numbered_getPart [OF enqueued(3) enqueued(2) enqueued(1) assms(2)]
  note s = slice_nth [OF enqueued(5) enqueued(6) enqueued(7)]
  have len: "int (length (take (nat (partCopied (int (u_BufSize u)) po pending)) (drop (nat bo) buf)))
     = (po + partCopied (int (u_BufSize u)) po pending) - po" using s(1) by simp
  note c = part_copy_Ret [OF enqueued(8) len]
  from g c(5) enqueued(1) have "partsNumberedByPosition (setPart (nat pn) part' u1)"
    by (intro numbered_setPart) simp_all
  with enqueued(10) have n3: "partsNumberedByPosition u3" by (rule numbered_enqueueUpload)
  show ?thesis
  proof (cases r)
    case None
    with enqueued(11) n3 show ?thesis by simp
  next
    case (Some e)
    with enqueued(11) n3 show ?thesis by (simp add: numbered_failedWriter)
  qed
qed

lemma numbered_writeLoop:
  "writeLoop env u buf pn po pending bo = Ret (u', n, r) \<Longrightarrow> partsNumberedByPosition u \<Longrightarrow>
   partsNumberedByPosition u'"
proof (induction env u buf pn po pending bo rule: writeLoop.induct)
  case (1 env u buf pn po pending bo)
  from "1.prems"(1) show ?case
  proof (cases rule: writeLoop_Ret_cases)
    case finished
    with "1.prems"(2) show ?thesis by simp
  next
    case (failed e)
    from numbered_writeStep [OF failed(3) "1.prems"(2)] show ?thesis by simp
  next
    case (continue u1)
    from numbered_writeStep [OF continue(3) "1.prems"(2)] have a: "partsNumberedByPosition u1" by simp
    show ?thesis
      using continue a by (intro "1.IH" [of "Inl u1" u1]) simp_all
  qed
qed

lemma numbered_WriteAt:
  assumes "WriteAt env u buf off = Ret (u', n, r)" and "partsNumberedByPosition u"
  shows "partsNumberedByPosition u'"
proof -
  from assms(1) have P: "u_BufSize u \<noteq> 0" by (auto simp add: WriteAt_def Let_def split: if_splits)
  let ?err = "(if u_err u = None \<and> u_MaxObjectSize u \<ge> 0 \<and>
                    wrap64 (off + int (length buf)) > u_MaxObjectSize u
                 then Some (ErrFileTooLarge (u_MaxObjectSize u)) else u_err u)"
  show ?thesis
  proof (cases ?err)
    case (Some e)
    with assms(1) P have "u' = failedWriter u e"
      by (auto simp add: WriteAt_def Let_def failWrite_eq split: if_splits)
    with assms(2) show ?thesis by (simp add: numbered_failedWriter)
  next
    case None
    let ?offFinal = "wrap64 (off + int (length buf))"
    let ?pnf = "quot (wrap64 (off + int (length buf) - 1)) (int (u_BufSize u))"
    let ?u1 = "u\<lparr>u_InfoSize := (if ?offFinal > u_InfoSize u then ?offFinal else u_InfoSize u)\<rparr>"
    define u2 where "u2 = (if int (length (u_parts ?u1)) \<le> ?pnf
                              then ?u1\<lparr>u_parts := u_parts ?u1
                                        @ replicate (nat (?pnf + 1) - length (u_parts ?u1)) None\<rparr>
                              else ?u1)"
    have u2: "u_parts u2 = u_parts u \<or> (\<exists>m. u_parts u2 = u_parts u @ replicate m None)"
      by (auto simp add: u2_def)
    have l: "writeLoop env u2 buf (quot off (int (u_BufSize u))) (rem off (int (u_BufSize u)))
                (int (length buf)) 0 = Ret (u', n, r)"
      using assms(1) P None unfolding WriteAt_def Let_def u2_def by simp
    have "partsNumberedByPosition u2"
      unfolding numbered_iff
    proof (intro allI impI)
      fix j p assume j: "j < length (u_parts u2)" "u_parts u2 ! j = Some p"
      from u2 j have "j < length (u_parts u) \<and> u_parts u ! j = Some p"
        by (cases "j < length (u_parts u)") (auto simp add: nth_append)
      with assms(2) show "part_partNumber p = int j + 1" by (simp add: numbered_iff)
    qed
    with l show ?thesis by (rule numbered_writeLoop)
  qed
qed


lemma create_calls:
  assumes "(if u_multiPartUploadID u = None then s3CreateMultipartUpload env u else Ret (u, None)) = Ret (u1, r)"
  shows "\<exists>evs. u_calls u1 = u_calls u @ evs \<and> filter isPoolGet evs = []"
proof (cases "u_multiPartUploadID u = None")
  case True
  with assms have "s3CreateMultipartUpload env u = Ret (u1, r)" by simp
  then show ?thesis
  proof (cases rule: s3CreateMultipartUpload_cases)
    case (refused e)
    then show ?thesis by simp
  next
    case (created uploadId)
    then show ?thesis by simp
  qed
next
  case False
  with assms show ?thesis by simp
qed

lemma enqueueUpload_calls:
  assumes "enqueueUpload env u k = Ret (u', r)"
  shows "\<exists>evs. u_calls u' = u_calls u @ evs \<and> filter isPoolGet evs = []"
  using assms
proof (cases rule: enqueueUpload_cases)
  case (already part)
  then show ?thesis by simp
next
  case (refused part e)
  from refused(5) show ?thesis
  proof (cases rule: s3CreateMultipartUpload_cases)
    case (refused e)
    then show ?thesis by simp
  next
    case (created uploadId)
    then show ?thesis by simp
  qed
next
  case (sent part u1)
  from create_calls [OF sent(4)] sent(6) show ?thesis by simp
next
  case (cancelled part u1)
  from create_calls [OF cancelled(4)] cancelled(6) show ?thesis by simp
qed

lemma part_copy_outside:
  assumes "part_copy part src start fin = Ret part'" and "int (length src) = fin - start"
  shows "\<forall>i < length (part_content part). int i < start \<or> fin \<le> int i \<longrightarrow>
           part_content part' ! i = part_content part ! i"
proof (intro allI impI)
  fix i assume i: "i < length (part_content part)" and out: "int i < start \<or> fin \<le> int i"
  from assms(1) have r: "0 \<le> start" "start \<le> fin" "fin \<le> int (length (part_content part))"
    by (auto simp add: part_copy_def split: if_splits)
  from assms(2) r have n: "min (nat (fin - start)) (length src) = length src" by simp
  from assms(1) r have "part_content part' =
      copySlice (part_content part) (nat start) (min (nat (fin - start)) (length src)) src 0"
    by (auto simp add: part_copy_def split: if_splits)
  then have p: "part_content part' =
      take (nat start) (part_content part) @ src @ drop (nat start + length src) (part_content part)"
    unfolding n by (simp add: copySlice_def)
  from assms(2) r have l: "nat start + length src = nat fin" by linarith
  from out show "part_content part' ! i = part_content part ! i"
  proof
    assume "int i < start"
    with r have "i < nat start" by linarith
    with r i show ?thesis unfolding p by (simp add: nth_append)
  next
    assume "fin \<le> int i"
    with r have f: "nat fin \<le> i" by linarith
    let ?A = "take (nat start) (part_content part)"
    let ?D = "drop (nat start + length src) (part_content part)"
    from r have la: "length ?A = nat start" by simp
    from f l have a: "\<not> i < length ?A" "\<not> i - length ?A < length src"
      unfolding la by linarith+
    from f l have idx: "nat start + length src + (i - length ?A - length src) = i"
      unfolding la by linarith
    have "(?A @ src @ ?D) ! i = (src @ ?D) ! (i - length ?A)"
      using a(1) by (simp only: nth_append if_False)
    also have "\<dots> = ?D ! (i - length ?A - length src)"
      using a(2) by (simp only: nth_append if_False)
    also have "\<dots> = part_content part ! i"
      using i idx by simp
    finally show ?thesis unfolding p .
  qed
qed

lemma writeStep_pool:
  assumes "writeStep env u buf pn po pending bo = Ret (Inl u1)"
  shows "\<exists>evs. u_calls u1 = u_calls u @ evs \<and>
     (case u_parts u ! nat pn of
        Some q \<Rightarrow> filter isPoolGet evs = []
      | None \<Rightarrow>
          (\<exists>b evs' p. evs = PoolGet # evs' \<and> filter isPoolGet evs' = [] \<and>
             w_PoolGet env (u_calls u) = Inr b \<and> u_parts u1 ! nat pn = Some p \<and>
             length (part_content p) = length b \<and>
             (\<forall>i < length b. int i < po \<or> po + partCopied (int (u_BufSize u)) po pending \<le> int i \<longrightarrow>
                part_content p ! i = b ! i)))"
  using assms
proof (cases rule: writeStep_cases)
  case (settled part)
  then show ?thesis by simp
next
  case (nobuffer e)
  then show ?thesis by simp
next
  case (copied u0 part part')
  let ?pc = "partCopied (int (u_BufSize u)) po pending"
  let ?src = "take (nat ?pc) (drop (nat bo) buf)"
  note s = slice_nth [OF copied(5) copied(6) copied(7)]
  have len: "int (length ?src) = (po + ?pc) - po" using s(1) by simp
  note c = part_copy_Ret [OF copied(8) len]
  note out = part_copy_outside [OF copied(8) len]
  from copied(10) have u1: "u1 = setPart (nat pn) part' u0" by simp
  show ?thesis
  proof (cases "u_parts u ! nat pn")
    case (Some q)
    with getPart_cases [OF copied(3)] have "u0 = u" by auto
    with u1 Some show ?thesis by simp
  next
    case None
    with getPart_cases [OF copied(3)] obtain b where b: "w_PoolGet env (u_calls u) = Inr b"
      "u0 = setPart (nat pn) part (call PoolGet u)" "part_content part = b"
      by auto
    from b(2) u1 copied(2) have "u_calls u1 = u_calls u @ [PoolGet]" "u_parts u1 ! nat pn = Some part'"
      by simp_all
    with None b(1,3) c(6) out show ?thesis by simp
  qed
next
  case (enqueued u0 part part' u3 r)
  let ?pc = "partCopied (int (u_BufSize u)) po pending"
  let ?src = "take (nat ?pc) (drop (nat bo) buf)"
  note s = slice_nth [OF enqueued(5) enqueued(6) enqueued(7)]
  have len: "int (length ?src) = (po + ?pc) - po" using s(1) by simp
  note c = part_copy_Ret [OF enqueued(8) len]
  note out = part_copy_outside [OF enqueued(8) len]
  from enqueued(11) have u1: "u1 = u3" by (cases r) simp_all
  note g = getPart_slot [OF enqueued(3) enqueued(2)]
  note q = enqueueUpload_slot [OF enqueued(10)]
  from enqueueUpload_calls [OF enqueued(10)] obtain evs3 where
    e3: "u_calls u3 = u_calls u0 @ evs3" "filter isPoolGet evs3 = []"
    by auto
  from q g enqueued(2) obtain p where p: "u_parts u3 ! nat pn = Some p"
    "part_content p = part_content part'"
    by auto
  show ?thesis
  proof (cases "u_parts u ! nat pn")
    case (Some q)
    with getPart_cases [OF enqueued(3)] have "u0 = u" by auto
    with u1 Some e3 show ?thesis by simp
  next
    case None
    with getPart_cases [OF enqueued(3)] obtain b where b: "w_PoolGet env (u_calls u) = Inr b"
      "u0 = setPart (nat pn) part (call PoolGet u)" "part_content part = b"
      by auto
    from b(2) u1 e3 have "u_calls u1 = u_calls u @ PoolGet # evs3" by simp
    with None b(1,3) c(6) out p e3(2) u1 show ?thesis by simp
  qed
qed


lemma touched_next:
  fixes P :: int
  assumes "0 < P" "0 \<le> po" "po < P" "0 < pending" "pn < k"
  shows "k * P < pn * P + po + pending \<longleftrightarrow>
     0 < pending - partCopied P po pending \<and>
     k * P < (pn + 1) * P + 0 + (pending - partCopied P po pending)"
proof (cases "po + pending > P")
  case True
  then have pc: "partCopied P po pending = P - po" by (simp add: partCopied_def)
  from True show ?thesis unfolding pc by (simp add: algebra_simps)
next
  case False
  then have pc: "partCopied P po pending = pending" by (simp add: partCopied_def)
  from assms(5) have "pn + 1 \<le> k" by simp
  with assms(1) have "(pn + 1) * P \<le> k * P" by (intro mult_right_mono) simp_all
  with False have "\<not> k * P < pn * P + po + pending" by (simp add: algebra_simps)
  with pc show ?thesis by simp
qed

lemma finite_touched:
  fixes P :: int
  assumes "0 < P"
  shows "finite {k :: nat. Q k \<and> int k * P < E}"
proof (rule finite_subset)
  show "{k :: nat. Q k \<and> int k * P < E} \<subseteq> {..< nat E}"
  proof
    fix k assume "k \<in> {k :: nat. Q k \<and> int k * P < E}"
    then have k: "int k * P < E" by simp
    from assms have "int k * 1 \<le> int k * P" by (intro mult_left_mono) simp_all
    with k have "int k < E" by simp
    then show "k \<in> {..< nat E}" by simp
  qed
qed simp

lemma writeLoop_poolgets:
  assumes "writeLoop env u buf pn po pending bo = Ret (u', n, None)"
    and "0 \<le> pn" "0 \<le> po" "po < int (u_BufSize u)"
  shows "\<exists>evs. u_calls u' = u_calls u @ evs \<and>
     length (filter isPoolGet evs) =
       card {k. (0 < pending \<and> pn \<le> int k \<and> u_parts u ! k = None) \<and>
                int k * int (u_BufSize u) < pn * int (u_BufSize u) + po + pending}"
  using assms
proof (induction env u buf pn po pending bo rule: writeLoop.induct)
  case (1 env u buf pn po pending bo)
  let ?P = "int (u_BufSize u)"
  note inv = "1.prems"(2-4)
  from "1.prems"(1) show ?case
  proof (cases rule: writeLoop_Ret_cases)
    case finished
    then have "{k. (0 < pending \<and> pn \<le> int k \<and> u_parts u ! k = None) \<and>
                int k * ?P < pn * ?P + po + pending} = {}" by auto
    with finished show ?thesis by simp
  next
    case (failed e)
    then show ?thesis by simp
  next
    case (continue u1)
    let ?pc = "partCopied ?P po pending"
    let ?S = "{k. (0 < pending \<and> pn \<le> int k \<and> u_parts u ! k = None) \<and>
                int k * ?P < pn * ?P + po + pending}"
    let ?S1 = "{k. (0 < pending - ?pc \<and> pn + 1 \<le> int k \<and> u_parts u1 ! k = None) \<and>
                int k * ?P < (pn + 1) * ?P + 0 + (pending - ?pc)}"
    from inv have P: "0 < ?P" by linarith
    note s = writeStep_slot [OF continue(3)]
    from s have sz: "u_BufSize u1 = u_BufSize u" by simp
    from s have others: "\<And>j. j \<noteq> nat pn \<Longrightarrow> u_parts u1 ! j = u_parts u ! j" by simp
    from writeStep_pool [OF continue(3)] obtain evs1 where
      evs1: "u_calls u1 = u_calls u @ evs1"
        "length (filter isPoolGet evs1) = (if u_parts u ! nat pn = None then 1 else 0)"
      by (cases "u_parts u ! nat pn") auto
    have "\<exists>evs. u_calls u' = u_calls u1 @ evs \<and> length (filter isPoolGet evs) = card ?S1"
      using continue inv P by (intro "1.IH" [of "Inl u1" u1, unfolded sz]) simp_all
    then obtain evs2 where evs2: "u_calls u' = u_calls u1 @ evs2"
      "length (filter isPoolGet evs2) = card ?S1"
      by blast
    have fin: "finite ?S1" using P by (rule finite_touched)
    have notin: "nat pn \<notin> ?S1" using inv by simp
    have mem: "k \<in> ?S \<longleftrightarrow> (k = nat pn \<and> u_parts u ! nat pn = None) \<or> k \<in> ?S1" for k
    proof (cases "int k = pn")
      case True
      then have k: "k = nat pn" by simp
      from continue(1) inv have "pn * ?P < pn * ?P + po + pending" by simp
      with True k continue(1) notin show ?thesis by auto
    next
      case False
      show ?thesis
      proof (cases "pn < int k")
        case gt: True
        with inv have "k \<noteq> nat pn" by linarith
        note o = others [OF this]
        from touched_next [OF P inv(2) inv(3) continue(1) gt] gt \<open>k \<noteq> nat pn\<close> continue(1)
        show ?thesis unfolding mem_Collect_eq o by auto
      next
        case lt: False
        with False inv have "\<not> pn \<le> int k" "k \<noteq> nat pn" by linarith+
        then show ?thesis by simp
      qed
    qed
    have card: "card ?S = (if u_parts u ! nat pn = None then 1 else 0) + card ?S1"
    proof (cases "u_parts u ! nat pn = None")
      case True
      have "?S = insert (nat pn) ?S1"
      proof (intro set_eqI)
        fix x
        from mem [of x] True show "x \<in> ?S \<longleftrightarrow> x \<in> insert (nat pn) ?S1"
          by (simp only: insert_iff simp_thms)
      qed
      with fin notin True show ?thesis by simp
    next
      case False
      have "?S = ?S1"
      proof (intro set_eqI)
        fix x
        from mem [of x] False show "x \<in> ?S \<longleftrightarrow> x \<in> ?S1"
          by (simp only: simp_thms)
      qed
      with False show ?thesis by simp
    qed
    from card evs1 evs2 show ?thesis
      by (intro exI [of _ "evs1 @ evs2"]) simp
  qed
qed


lemma writeLoop_pool:
  assumes "writeLoop env u buf pn po pending bo = Ret (u', n, None)"
    and "0 \<le> pn" "0 \<le> po" "po < int (u_BufSize u)"
  shows "\<forall>k. 0 < pending \<and> pn \<le> int k \<and>
           int k * int (u_BufSize u) < pn * int (u_BufSize u) + po + pending \<and>
           u_parts u ! k = None \<longrightarrow>
     (\<exists>evs evs' b p. u_calls u' = u_calls u @ evs @ PoolGet # evs' \<and>
        w_PoolGet env (u_calls u @ evs) = Inr b \<and>
        u_parts u' ! k = Some p \<and> length (part_content p) = length b \<and>
        (\<forall>i < length b. int k * int (u_BufSize u) + int i < pn * int (u_BufSize u) + po \<or>
                         pn * int (u_BufSize u) + po + pending \<le> int k * int (u_BufSize u) + int i \<longrightarrow>
           part_content p ! i = b ! i))"
  using assms
proof (induction env u buf pn po pending bo rule: writeLoop.induct)
  case (1 env u buf pn po pending bo)
  let ?P = "int (u_BufSize u)"
  note inv = "1.prems"(2-4)
  from "1.prems"(1) show ?case
  proof (cases rule: writeLoop_Ret_cases)
    case finished
    then show ?thesis by simp
  next
    case (failed e)
    then show ?thesis by simp
  next
    case (continue u1)
    let ?pc = "partCopied ?P po pending"
    from inv have P: "0 < ?P" by linarith
    note s = writeStep_slot [OF continue(3)]
    from s have sz: "u_BufSize u1 = u_BufSize u" by simp
    from s have others: "\<And>j. j \<noteq> nat pn \<Longrightarrow> u_parts u1 ! j = u_parts u ! j" by simp
    from inv have pn1: "0 \<le> pn + 1" by simp
    from continue(1) inv have pc: "0 < ?pc" "?pc \<le> pending" "po + ?pc \<le> ?P"
      by (simp_all add: partCopied_def)
    from writeLoop_poolgets [OF continue(4) pn1] P sz obtain evs2 where
      evs2: "u_calls u' = u_calls u1 @ evs2"
      by auto
    note fr = writeLoop_frame [OF continue(4) pn1]
    have IH: "\<forall>k. 0 < pending - ?pc \<and> pn + 1 \<le> int k \<and>
           int k * ?P < (pn + 1) * ?P + 0 + (pending - ?pc) \<and>
           u_parts u1 ! k = None \<longrightarrow>
     (\<exists>evs evs' b p. u_calls u' = u_calls u1 @ evs @ PoolGet # evs' \<and>
        w_PoolGet env (u_calls u1 @ evs) = Inr b \<and>
        u_parts u' ! k = Some p \<and> length (part_content p) = length b \<and>
        (\<forall>i < length b. int k * ?P + int i < (pn + 1) * ?P + 0 \<or>
                         (pn + 1) * ?P + 0 + (pending - ?pc) \<le> int k * ?P + int i \<longrightarrow>
           part_content p ! i = b ! i))"
      using continue inv P by (intro "1.IH" [of "Inl u1" u1, unfolded sz]) simp_all
    show ?thesis
    proof (intro allI impI)
      fix k
      assume k: "0 < pending \<and> pn \<le> int k \<and> int k * ?P < pn * ?P + po + pending \<and>
           u_parts u ! k = None"
      show "\<exists>evs evs' b p. u_calls u' = u_calls u @ evs @ PoolGet # evs' \<and>
        w_PoolGet env (u_calls u @ evs) = Inr b \<and>
        u_parts u' ! k = Some p \<and> length (part_content p) = length b \<and>
        (\<forall>i < length b. int k * ?P + int i < pn * ?P + po \<or>
                         pn * ?P + po + pending \<le> int k * ?P + int i \<longrightarrow>
           part_content p ! i = b ! i)"
      proof (cases "int k = pn")
        case True
        then have kn: "k = nat pn" by simp
        with k have none: "u_parts u ! nat pn = None" by simp
        from writeStep_pool [OF continue(3)] none obtain b evs' p where
          w: "u_calls u1 = u_calls u @ PoolGet # evs'" "w_PoolGet env (u_calls u) = Inr b"
            "u_parts u1 ! nat pn = Some p" "length (part_content p) = length b"
            "\<forall>i < length b. int i < po \<or> po + ?pc \<le> int i \<longrightarrow> part_content p ! i = b ! i"
          by auto
        from fr inv have same: "u_parts u' ! nat pn = u_parts u1 ! nat pn" by simp
        have out: "\<forall>i < length b. int k * ?P + int i < pn * ?P + po \<or>
                         pn * ?P + po + pending \<le> int k * ?P + int i \<longrightarrow>
           part_content p ! i = b ! i"
        proof (intro allI impI)
          fix i assume i: "i < length b"
            and o: "int k * ?P + int i < pn * ?P + po \<or> pn * ?P + po + pending \<le> int k * ?P + int i"
          from o True pc have "int i < po \<or> po + ?pc \<le> int i" by auto
          with w(5) i show "part_content p ! i = b ! i" by blast
        qed
        from w(1) evs2 have "u_calls u' = u_calls u @ [] @ PoolGet # (evs' @ evs2)" by simp
        with w(2,3,4) same out kn show ?thesis
          by (intro exI [of _ "[]"] exI [of _ "evs' @ evs2"] exI [of _ b] exI [of _ p]) simp
      next
        case False
        with k have gt: "pn < int k" by simp
        with inv have ne: "k \<noteq> nat pn" by linarith
        from others [OF ne] k have none1: "u_parts u1 ! k = None" by simp
        from touched_next [OF P inv(2) inv(3) _ gt, of pending] k
        have t: "0 < pending - ?pc" "int k * ?P < (pn + 1) * ?P + 0 + (pending - ?pc)"
          by simp_all
        from t(1) have pcv: "?pc = ?P - po" by (simp add: partCopied_def split: if_splits)
        from gt have ge: "pn + 1 \<le> int k" by simp
        from t ge none1 have pre: "0 < pending - ?pc \<and> pn + 1 \<le> int k \<and>
           int k * ?P < (pn + 1) * ?P + 0 + (pending - ?pc) \<and> u_parts u1 ! k = None"
          by (intro conjI)
        from IH [rule_format, OF pre] obtain evs evs' b p where
          w: "u_calls u' = u_calls u1 @ evs @ PoolGet # evs'" "w_PoolGet env (u_calls u1 @ evs) = Inr b"
            "u_parts u' ! k = Some p" "length (part_content p) = length b"
            "\<forall>i < length b. int k * ?P + int i < (pn + 1) * ?P + 0 \<or>
                         (pn + 1) * ?P + 0 + (pending - ?pc) \<le> int k * ?P + int i \<longrightarrow>
              part_content p ! i = b ! i"
          by (elim exE conjE) (rule that)
        from writeStep_pool [OF continue(3)] obtain evs1 where evs1: "u_calls u1 = u_calls u @ evs1"
          by auto
        have out: "\<forall>i < length b. int k * ?P + int i < pn * ?P + po \<or>
                         pn * ?P + po + pending \<le> int k * ?P + int i \<longrightarrow>
           part_content p ! i = b ! i"
        proof (intro allI impI)
          fix i assume i: "i < length b"
            and o: "int k * ?P + int i < pn * ?P + po \<or> pn * ?P + po + pending \<le> int k * ?P + int i"
          have e: "(pn + 1) * ?P + 0 + (pending - ?pc) = pn * ?P + po + pending"
            unfolding pcv by (simp add: algebra_simps)
          from inv have "pn * ?P + po < (pn + 1) * ?P + 0" by (simp add: algebra_simps)
          with o have "int k * ?P + int i < (pn + 1) * ?P + 0 \<or>
                         (pn + 1) * ?P + 0 + (pending - ?pc) \<le> int k * ?P + int i"
            unfolding e by linarith
          with w(5) i show "part_content p ! i = b ! i" by blast
        qed
        from w(1) evs1 have c: "u_calls u' = u_calls u @ (evs1 @ evs) @ PoolGet # evs'" by simp
        from w(2) evs1 have g: "w_PoolGet env (u_calls u @ (evs1 @ evs)) = Inr b" by simp
        from c g w(3,4) out show ?thesis
          by (intro exI [of _ "evs1 @ evs"] exI [of _ evs'] exI [of _ b] exI [of _ p]) simp
      qed
    qed
  qed
qed


lemma byte_in_touched_part:
  fixes P :: int
  assumes "0 < P" "0 \<le> off" "j < n"
  shows "off div P \<le> (off + int j) div P" "(off + int j) div P * P < off + int n"
    "0 \<le> (off + int j) div P"
proof -
  from assms(1) show "off div P \<le> (off + int j) div P" by (intro zdiv_mono1) simp_all
  have "(off + int j) div P * P \<le> off + int j"
    using assms(1) by (simp add: minus_mod_eq_div_mult [symmetric])
  with assms(3) show "(off + int j) div P * P < off + int n" by simp
  from assms show "0 \<le> (off + int j) div P" by (simp add: pos_imp_zdiv_nonneg_iff)
qed

lemma touched_in_range:
  fixes P :: int
  assumes "0 < P" "int k * P < E"
  shows "k < nat ((E - 1) div P + 1)"
proof -
  from assms(2) have "int k * P \<le> E - 1" by simp
  with assms(1) have "(int k * P) div P \<le> (E - 1) div P" by (intro zdiv_mono1)
  with assms(1) have "int k \<le> (E - 1) div P" by simp
  then show ?thesis by linarith
qed

text \<open>
  Claim C8, as the code has it. On a writer without error whose parts are numbered by
  their position, after a \<open>WriteAt(buf, off)\<close> that succeeds (offset not negative, buffer
  not empty), the parts are still numbered by their position and, for each byte of
  \<open>buf\<close>, at absolute offset \<open>o\<close>: the slot \<open>o / P\<close> of the parts holds a part, whose part
  number is \<open>o / P + 1\<close>; if the slot was empty or the part in state Adding before, the
  buffer of the part holds the byte at offset \<open>o mod P\<close>; and if the slot was empty
  before, the buffer of the part is one the pool handed out during this call, with the
  bytes outside the written range as the pool gave them. The call takes one buffer from
  the pool for each slot it touches that was empty and none for the others. A write that
  crosses a part boundary thus fills several parts. Bytes meant for a part that was
  already Full or in a later state are not stored.
\<close>

theorem WriteAt_places_bytes:
  assumes "u_err u = None" and "u_BufSize u \<noteq> 0" and "0 \<le> off"
    and "off + int (length buf) < 2 ^ 63"
    and "u_MaxObjectSize u < 0 \<or> off + int (length buf) \<le> u_MaxObjectSize u"
    and "buf \<noteq> []"
    and "partsNumberedByPosition u"
    and "WriteAt env u buf off = Ret (u', n, None)"
  shows "n = int (length buf) \<and> partsNumberedByPosition u' \<and>
    (\<forall>j < length buf.
       nat ((off + int j) div int (u_BufSize u)) < length (u_parts u') \<and>
       (\<exists>p. u_parts u' ! nat ((off + int j) div int (u_BufSize u)) = Some p \<and>
          part_partNumber p = (off + int j) div int (u_BufSize u) + 1 \<and>
          ((nat ((off + int j) div int (u_BufSize u)) < length (u_parts u) \<longrightarrow>
              (case u_parts u ! nat ((off + int j) div int (u_BufSize u)) of
                 None \<Rightarrow> True | Some q \<Rightarrow> part_state q = S3PartUploadStateAdding)) \<longrightarrow>
             part_content p ! nat ((off + int j) mod int (u_BufSize u)) = buf ! j) \<and>
          ((nat ((off + int j) div int (u_BufSize u)) < length (u_parts u) \<longrightarrow>
              u_parts u ! nat ((off + int j) div int (u_BufSize u)) = None) \<longrightarrow>
             (\<exists>evs evs' b. u_calls u' = u_calls u @ evs @ PoolGet # evs' \<and>
                w_PoolGet env (u_calls u @ evs) = Inr b \<and>
                length (part_content p) = length b \<and>
                (\<forall>i < length b.
                   (off + int j) div int (u_BufSize u) * int (u_BufSize u) + int i < off \<or>
                   off + int (length buf) \<le> (off + int j) div int (u_BufSize u) * int (u_BufSize u) + int i \<longrightarrow>
                   part_content p ! i = b ! i))))) \<and>
    length (filter isPoolGet (drop (length (u_calls u)) (u_calls u'))) =
      card {k. (\<exists>j < length buf. k = nat ((off + int j) div int (u_BufSize u))) \<and>
               (k < length (u_parts u) \<longrightarrow> u_parts u ! k = None)}"
proof -
  let ?P = "int (u_BufSize u)"
  let ?n = "int (length buf)"
  let ?m = "nat ((off + ?n - 1) div ?P + 1) - length (u_parts u)"
  let ?u2 = "u\<lparr>u_InfoSize := (if off + ?n > u_InfoSize u then off + ?n else u_InfoSize u),
          u_parts := u_parts u @ replicate ?m None\<rparr>"
  from assms(2) have P: "0 < ?P" by simp
  from assms(6) have n: "0 < ?n" "0 < length buf" by simp_all
  have loop: "writeLoop env ?u2 buf (off div ?P) (off mod ?P) ?n 0 = Ret (u', n, None)"
    using WriteAt_normal [OF assms(1-6), of env] assms(8) by simp
  have sz: "u_BufSize ?u2 = u_BufSize u" by simp
  have calls2: "u_calls ?u2 = u_calls u" by simp
  from assms(3) P have inv: "0 \<le> off div ?P" "0 \<le> off mod ?P" "off mod ?P < ?P"
    by (simp_all add: pos_imp_zdiv_nonneg_iff)
  have pos: "off div ?P * ?P + off mod ?P + (int j - 0) = off + int j" for j
    by simp
  have start: "off div ?P * ?P + off mod ?P = off" by simp
  note b = writeLoop_bytes [OF loop, unfolded sz pos, OF inv(1) inv(2) inv(3)]
  note pl = writeLoop_pool [OF loop, unfolded sz calls2 start, OF inv(1) inv(2) inv(3)]
  note cnt = writeLoop_poolgets [OF loop, unfolded sz calls2 start, OF inv(1) inv(2) inv(3)]
  have len2: "length (u_parts ?u2) = max (length (u_parts u)) (nat ((off + ?n - 1) div ?P + 1))"
    by simp
  have slot: "u_parts ?u2 ! k = (if k < length (u_parts u) then u_parts u ! k else None)"
    if "k < length (u_parts ?u2)" for k
    using that by (auto simp add: nth_append)
  have none2: "u_parts ?u2 ! k = None \<longleftrightarrow> (k < length (u_parts u) \<longrightarrow> u_parts u ! k = None)"
    if "int k * ?P < off + ?n" for k
  proof -
    from touched_in_range [OF P that] len2 have "k < length (u_parts ?u2)" by simp
    from slot [OF this] show ?thesis by simp
  qed
  from numbered_WriteAt [OF assms(8) assms(7)] have num: "partsNumberedByPosition u'" .
  from writeLoop_frame [OF loop inv(1)] have len: "length (u_parts u') = length (u_parts ?u2)"
    by simp
  have main: "\<forall>j < length buf.
       nat ((off + int j) div ?P) < length (u_parts u') \<and>
       (\<exists>p. u_parts u' ! nat ((off + int j) div ?P) = Some p \<and>
          part_partNumber p = (off + int j) div ?P + 1 \<and>
          ((nat ((off + int j) div ?P) < length (u_parts u) \<longrightarrow>
              (case u_parts u ! nat ((off + int j) div ?P) of
                 None \<Rightarrow> True | Some q \<Rightarrow> part_state q = S3PartUploadStateAdding)) \<longrightarrow>
             part_content p ! nat ((off + int j) mod ?P) = buf ! j) \<and>
          ((nat ((off + int j) div ?P) < length (u_parts u) \<longrightarrow>
              u_parts u ! nat ((off + int j) div ?P) = None) \<longrightarrow>
             (\<exists>evs evs' b. u_calls u' = u_calls u @ evs @ PoolGet # evs' \<and>
                w_PoolGet env (u_calls u @ evs) = Inr b \<and>
                length (part_content p) = length b \<and>
                (\<forall>i < length b.
                   (off + int j) div ?P * ?P + int i < off \<or>
                   off + ?n \<le> (off + int j) div ?P * ?P + int i \<longrightarrow>
                   part_content p ! i = b ! i))))"
  proof (intro allI impI)
    fix j assume j: "j < length buf"
    let ?d = "(off + int j) div ?P"
    let ?k = "nat ?d"
    note t = byte_in_touched_part [OF P assms(3) j]
    from t(3) have ik: "int ?k = ?d" by simp
    from t(2) ik have touched: "int ?k * ?P < off + ?n" by simp
    from b j have k: "?k < length (u_parts u')" and
      ex: "\<exists>p. u_parts u' ! ?k = Some p \<and>
         (u_parts ?u2 ! ?k = None \<longrightarrow> part_partNumber p = ?d + 1) \<and>
         ((case u_parts ?u2 ! ?k of
             None \<Rightarrow> True | Some q \<Rightarrow> part_state q = S3PartUploadStateAdding) \<longrightarrow>
            part_content p ! nat ((off + int j) mod ?P) = buf ! j)"
      by simp_all
    from k len have "?k < length (u_parts ?u2)" by simp
    note sl = slot [OF this]
    from ex obtain p where p: "u_parts u' ! ?k = Some p"
      "(case u_parts ?u2 ! ?k of
             None \<Rightarrow> True | Some q \<Rightarrow> part_state q = S3PartUploadStateAdding) \<longrightarrow>
            part_content p ! nat ((off + int j) mod ?P) = buf ! j"
      by (elim conjE exE) (rule that, assumption, assumption)
    from num have "\<forall>k < length (u_parts u'). \<forall>p. u_parts u' ! k = Some p \<longrightarrow>
        part_partNumber p = int k + 1"
      by (simp only: numbered_iff)
    with k p(1) have "part_partNumber p = int ?k + 1" by blast
    then have number: "part_partNumber p = ?d + 1" unfolding ik .
    have bytes: "(?k < length (u_parts u) \<longrightarrow>
              (case u_parts u ! ?k of
                 None \<Rightarrow> True | Some q \<Rightarrow> part_state q = S3PartUploadStateAdding)) \<longrightarrow>
             part_content p ! nat ((off + int j) mod ?P) = buf ! j"
      using p(2) sl by (cases "?k < length (u_parts u)") simp_all
    have pool: "(?k < length (u_parts u) \<longrightarrow> u_parts u ! ?k = None) \<longrightarrow>
             (\<exists>evs evs' b. u_calls u' = u_calls u @ evs @ PoolGet # evs' \<and>
                w_PoolGet env (u_calls u @ evs) = Inr b \<and>
                length (part_content p) = length b \<and>
                (\<forall>i < length b. ?d * ?P + int i < off \<or> off + ?n \<le> ?d * ?P + int i \<longrightarrow>
                   part_content p ! i = b ! i))"
    proof
      assume "?k < length (u_parts u) \<longrightarrow> u_parts u ! ?k = None"
      with none2 [OF touched] have none: "u_parts ?u2 ! ?k = None" by simp
      from n(1) t(1) touched none ik have pre: "0 < ?n \<and> off div ?P \<le> int ?k \<and>
           int ?k * ?P < off + ?n \<and> u_parts ?u2 ! ?k = None"
        by simp
      from pl [rule_format, OF pre] obtain evs evs' b p' where
        w: "u_calls u' = u_calls u @ evs @ PoolGet # evs'" "w_PoolGet env (u_calls u @ evs) = Inr b"
          "u_parts u' ! ?k = Some p'" "length (part_content p') = length b"
          "\<forall>i < length b. int ?k * ?P + int i < off \<or> off + ?n \<le> int ?k * ?P + int i \<longrightarrow>
              part_content p' ! i = b ! i"
        by (elim exE conjE) (rule that)
      from w(3) p(1) have "p' = p" by simp
      with w show "\<exists>evs evs' b. u_calls u' = u_calls u @ evs @ PoolGet # evs' \<and>
                w_PoolGet env (u_calls u @ evs) = Inr b \<and>
                length (part_content p) = length b \<and>
                (\<forall>i < length b. ?d * ?P + int i < off \<or> off + ?n \<le> ?d * ?P + int i \<longrightarrow>
                   part_content p ! i = b ! i)"
        unfolding ik by blast
    qed
    from k p(1) number bytes pool
    show "?k < length (u_parts u') \<and>
       (\<exists>p. u_parts u' ! ?k = Some p \<and>
          part_partNumber p = ?d + 1 \<and>
          ((?k < length (u_parts u) \<longrightarrow>
              (case u_parts u ! ?k of
                 None \<Rightarrow> True | Some q \<Rightarrow> part_state q = S3PartUploadStateAdding)) \<longrightarrow>
             part_content p ! nat ((off + int j) mod ?P) = buf ! j) \<and>
          ((?k < length (u_parts u) \<longrightarrow> u_parts u ! ?k = None) \<longrightarrow>
             (\<exists>evs evs' b. u_calls u' = u_calls u @ evs @ PoolGet # evs' \<and>
                w_PoolGet env (u_calls u @ evs) = Inr b \<and>
                length (part_content p) = length b \<and>
                (\<forall>i < length b. ?d * ?P + int i < off \<or> off + ?n \<le> ?d * ?P + int i \<longrightarrow>
                   part_content p ! i = b ! i))))"
      by (intro conjI exI [of _ p])
  qed
  have sets: "{k. (0 < ?n \<and> off div ?P \<le> int k \<and> u_parts ?u2 ! k = None) \<and> int k * ?P < off + ?n}
      = {k. (\<exists>j < length buf. k = nat ((off + int j) div ?P)) \<and>
               (k < length (u_parts u) \<longrightarrow> u_parts u ! k = None)}"
  proof (intro set_eqI iffI; unfold mem_Collect_eq)
    fix k
    assume a: "(0 < ?n \<and> off div ?P \<le> int k \<and> u_parts ?u2 ! k = None) \<and> int k * ?P < off + ?n"
    then have t: "int k * ?P < off + ?n" by simp
    from touched_part_has_byte [OF P assms(3) _ t n(2)] a obtain j where
      "j < length buf" "(off + int j) div ?P = int k" by blast
    then have "\<exists>j < length buf. k = nat ((off + int j) div ?P)" by (intro exI [of _ j]) simp
    with a none2 [OF t] show "(\<exists>j < length buf. k = nat ((off + int j) div ?P)) \<and>
               (k < length (u_parts u) \<longrightarrow> u_parts u ! k = None)" by simp
  next
    fix k
    assume a: "(\<exists>j < length buf. k = nat ((off + int j) div ?P)) \<and>
               (k < length (u_parts u) \<longrightarrow> u_parts u ! k = None)"
    then obtain j where j: "j < length buf" "k = nat ((off + int j) div ?P)" by blast
    note t = byte_in_touched_part [OF P assms(3) j(1)]
    from t(3) j(2) have ik: "int k = (off + int j) div ?P" by simp
    from t(2) ik have touched: "int k * ?P < off + ?n" by simp
    from a none2 [OF touched] n(1) t(1) ik touched
    show "(0 < ?n \<and> off div ?P \<le> int k \<and> u_parts ?u2 ! k = None) \<and> int k * ?P < off + ?n"
      by simp
  qed
  from cnt obtain evs where evs: "u_calls u' = u_calls u @ evs"
    "length (filter isPoolGet evs) =
       card {k. (0 < ?n \<and> off div ?P \<le> int k \<and> u_parts ?u2 ! k = None) \<and> int k * ?P < off + ?n}"
    by blast
  from evs have count: "length (filter isPoolGet (drop (length (u_calls u)) (u_calls u'))) =
      card {k. (\<exists>j < length buf. k = nat ((off + int j) div ?P)) \<and>
               (k < length (u_parts u) \<longrightarrow> u_parts u ! k = None)}"
    unfolding sets by simp
  from writeLoop_count [OF loop] num main count show ?thesis by (intro conjI)
qed

theorem WriteAt_places_bytes_witness:
  "\<exists>u'. WriteAt (okEnv 4)
     \<lparr>u_MaxObjectSize = 100, u_BufSize = 4, u_Info = 7, u_InfoSize = 2,
      u_completedParts = [],
      u_parts = [Some \<lparr>part_content = ''ab..'', part_partNumber = 1,
                         part_o = [True, True, False, False],
                         part_state = S3PartUploadStateAdding\<rparr>],
      u_multiPartUploadID = None, u_err = None, u_uploadGroup = 0,
      u_inflight = [], u_inSeterr = [], u_PhantomObjectMap = [(''k'', 7)],
      u_calls = [PoolGet]\<rparr> ''cdef'' 2 = Ret (u', 4, None) \<and>
     (\<forall>j < 4. \<exists>p. u_parts u' ! nat ((2 + int j) div 4) = Some p \<and>
        part_partNumber p = (2 + int j) div 4 + 1 \<and>
        part_content p ! nat ((2 + int j) mod 4) = ''cdef'' ! j) \<and>
     length (filter isPoolGet (drop 1 (u_calls u'))) = 1"
proof -
  let ?u0 = "\<lparr>u_MaxObjectSize = 100, u_BufSize = 4, u_Info = 7, u_InfoSize = 2,
      u_completedParts = [],
      u_parts = [Some \<lparr>part_content = ''ab..'', part_partNumber = 1,
                         part_o = [True, True, False, False],
                         part_state = S3PartUploadStateAdding\<rparr>],
      u_multiPartUploadID = None, u_err = None, u_uploadGroup = 0,
      u_inflight = [], u_inSeterr = [], u_PhantomObjectMap = [(''k'', 7)],
      u_calls = [PoolGet]\<rparr>"
  let ?U = "\<lparr>u_MaxObjectSize = 100, u_BufSize = 4, u_Info = 7, u_InfoSize = 6,
      u_completedParts = [],
      u_parts = [Some \<lparr>part_content = ''abcd'', part_partNumber = 1,
                         part_o = [True, True, True, True],
                         part_state = S3PartUploadStateFull\<rparr>,
                 Some \<lparr>part_content = ''ef..'', part_partNumber = 2,
                         part_o = [True, True, False, False],
                         part_state = S3PartUploadStateAdding\<rparr>],
      u_multiPartUploadID = Some ''id'', u_err = None, u_uploadGroup = 1,
      u_inflight = [0], u_inSeterr = [], u_PhantomObjectMap = [(''k'', 7)],
      u_calls = [PoolGet, CreateMultipartUpload (Some ''id''), PoolGet]\<rparr>"
  have w: "WriteAt (okEnv 4) ?u0 ''cdef'' 2 = Ret (?U, 4, None)"
    by code_simp
  have num: "partsNumberedByPosition ?u0"
    by (simp add: partsNumberedByPosition_def)
  have h: "u_err ?u0 = None" "u_BufSize ?u0 \<noteq> 0" "(0::int) \<le> 2"
    "2 + int (length ''cdef'') < 2 ^ 63"
    "u_MaxObjectSize ?u0 < 0 \<or> 2 + int (length ''cdef'') \<le> u_MaxObjectSize ?u0"
    "''cdef'' \<noteq> []"
    by simp_all
  note T = WriteAt_places_bytes [OF h num w]
  have d: "(2::int) div 4 = 0" "(3::int) div 4 = 0" "(4::int) div 4 = 1" "(5::int) div 4 = 1"
    by simp_all
  have sel: "int (u_BufSize ?u0) = 4" "length (u_parts ?u0) = 1" "u_parts ?u0 ! 0 \<noteq> None"
    "length ''cdef'' = 4"
    by simp_all
  have fresh: "{k. (\<exists>j < length ''cdef''. k = nat ((2 + int j) div int (u_BufSize ?u0))) \<and>
               (k < length (u_parts ?u0) \<longrightarrow> u_parts ?u0 ! k = None)} = {1}"
    unfolding sel
  proof (intro set_eqI iffI)
    fix k
    assume "k \<in> {k. (\<exists>j < 4. k = nat ((2 + int j) div 4)) \<and> (k < 1 \<longrightarrow> u_parts ?u0 ! k = None)}"
    then obtain j where j: "j < 4" "k = nat ((2 + int j) div 4)"
      and e: "k < 1 \<longrightarrow> u_parts ?u0 ! k = None"
      by blast
    from j(1) consider "j = 0" | "j = 1" | "j = 2" | "j = 3" by linarith
    then have "k = 0 \<or> k = 1" using j(2) d by cases simp_all
    with e sel(3) show "k \<in> {1}" by auto
  next
    fix k :: nat
    assume "k \<in> {1}"
    then have k: "k = 1" by simp
    have "\<exists>j < 4. k = nat ((2 + int j) div 4)"
      unfolding k using d by (intro exI [of _ 2]) simp
    with k show "k \<in> {k. (\<exists>j < 4. k = nat ((2 + int j) div 4)) \<and> (k < 1 \<longrightarrow> u_parts ?u0 ! k = None)}"
      by simp
  qed
  from T have "length (filter isPoolGet (drop (length (u_calls ?u0)) (u_calls ?U))) = card {1 :: nat}"
    unfolding fresh by (elim conjE)
  then have count: "length (filter isPoolGet (drop 1 (u_calls ?U))) = 1" by simp
  from T have main: "\<forall>j < length ''cdef''. \<exists>p.
      u_parts ?U ! nat ((2 + int j) div int (u_BufSize ?u0)) = Some p \<and>
      part_partNumber p = (2 + int j) div int (u_BufSize ?u0) + 1 \<and>
      ((nat ((2 + int j) div int (u_BufSize ?u0)) < length (u_parts ?u0) \<longrightarrow>
          (case u_parts ?u0 ! nat ((2 + int j) div int (u_BufSize ?u0)) of
             None \<Rightarrow> True | Some q \<Rightarrow> part_state q = S3PartUploadStateAdding)) \<longrightarrow>
         part_content p ! nat ((2 + int j) mod int (u_BufSize ?u0)) = ''cdef'' ! j)"
    by (elim conjE) blast
  have "\<forall>j < 4. \<exists>p. u_parts ?U ! nat ((2 + int j) div 4) = Some p \<and>
        part_partNumber p = (2 + int j) div 4 + 1 \<and>
        part_content p ! nat ((2 + int j) mod 4) = ''cdef'' ! j"
  proof (intro allI impI)
    fix j :: nat assume "j < 4"
    then consider "j = 0" | "j = 1" | "j = 2" | "j = 3" by linarith
    then show "\<exists>p. u_parts ?U ! nat ((2 + int j) div 4) = Some p \<and>
        part_partNumber p = (2 + int j) div 4 + 1 \<and>
        part_content p ! nat ((2 + int j) mod 4) = ''cdef'' ! j"
    proof cases
      case 1
      with main [rule_format, of 0] show ?thesis by simp
    next
      case 2
      with main [rule_format, of 1] show ?thesis by simp
    next
      case 3
      with main [rule_format, of 2] show ?thesis by simp
    next
      case 4
      with main [rule_format, of 3] show ?thesis by simp
    qed
  qed
  with count have "(\<forall>j < 4. \<exists>p. u_parts ?U ! nat ((2 + int j) div 4) = Some p \<and>
        part_partNumber p = (2 + int j) div 4 + 1 \<and>
        part_content p ! nat ((2 + int j) mod 4) = ''cdef'' ! j) \<and>
     length (filter isPoolGet (drop 1 (u_calls ?U))) = 1"
    by (rule conjI [rotated])
  with w show ?thesis by blast
qed

text \<open>
  Claim C8 as stated fails when the part is no longer in state Adding: with parts of 2
  bytes, after \<open>abcd\<close> was written at offset 0 both parts are Full; writing \<open>Z\<close> at
  offset 3 returns \<open>(1, nil)\<close> and part 2 still holds \<open>cd\<close>.
\<close>

theorem write_over_full_part_is_not_stored:
  "WriteAt (okEnv 2)
     \<lparr>u_MaxObjectSize = 100, u_BufSize = 2, u_Info = 7, u_InfoSize = 4,
      u_completedParts = [],
      u_parts = [Some \<lparr>part_content = ''ab'', part_partNumber = 1, part_o = [True, True],
                         part_state = S3PartUploadStateFull\<rparr>,
                 Some \<lparr>part_content = ''cd'', part_partNumber = 2, part_o = [True, True],
                         part_state = S3PartUploadStateFull\<rparr>],
      u_multiPartUploadID = Some ''id'', u_err = None, u_uploadGroup = 2,
      u_inflight = [0, 1], u_inSeterr = [], u_PhantomObjectMap = [(''k'', 7)],
      u_calls = [PoolGet, CreateMultipartUpload (Some ''id''), PoolGet]\<rparr> ''Z'' 3
   = Ret (\<lparr>u_MaxObjectSize = 100, u_BufSize = 2, u_Info = 7, u_InfoSize = 4,
      u_completedParts = [],
      u_parts = [Some \<lparr>part_content = ''ab'', part_partNumber = 1, part_o = [True, True],
                         part_state = S3PartUploadStateFull\<rparr>,
                 Some \<lparr>part_content = ''cd'', part_partNumber = 2, part_o = [True, True],
                         part_state = S3PartUploadStateFull\<rparr>],
      u_multiPartUploadID = Some ''id'', u_err = None, u_uploadGroup = 2,
      u_inflight = [0, 1], u_inSeterr = [], u_PhantomObjectMap = [(''k'', 7)],
      u_calls = [PoolGet, CreateMultipartUpload (Some ''id''), PoolGet]\<rparr>, 1, None)"
  by code_simp

lemma callsAdded_iff:
  "callsAdded u u' \<longleftrightarrow>
     (\<exists>evs. u_calls u' = u_calls u @ evs) \<and>
     u_PhantomObjectMap u' = u_PhantomObjectMap u \<and> u_Info u' = u_Info u"
proof -
  have "take (length xs) ys = xs \<longleftrightarrow> (\<exists>evs. ys = xs @ evs)" for xs ys :: "event list"
  proof
    assume "take (length xs) ys = xs"
    then have "ys = xs @ drop (length xs) ys" by (metis append_take_drop_id)
    then show "\<exists>evs. ys = xs @ evs" ..
  next
    assume "\<exists>evs. ys = xs @ evs"
    then show "take (length xs) ys = xs" by auto
  qed
  then show ?thesis by (simp add: callsAdded_def)
qed

lemma callsAdded_refl: "callsAdded u u"
  by (simp add: callsAdded_iff)

lemma callsAdded_trans: "callsAdded u u1 \<Longrightarrow> callsAdded u1 u2 \<Longrightarrow> callsAdded u u2"
  by (auto simp add: callsAdded_iff)

lemma callsAddedI:
  "u_calls u' = u_calls u @ evs \<Longrightarrow> u_PhantomObjectMap u' = u_PhantomObjectMap u \<Longrightarrow>
   u_Info u' = u_Info u \<Longrightarrow> callsAdded u u'"
  by (simp add: callsAdded_iff)

lemma callsAdded_afterRemoval:
  assumes "callsAdded u1 u2" and "afterRemoval u (u_calls u1)"
  shows "afterRemoval u (u_calls u2)"
proof -
  let ?n = "Suc (length (u_calls u))"
  from assms(1) obtain evs where evs: "u_calls u2 = u_calls u1 @ evs"
    by (auto simp add: callsAdded_iff)
  from assms(2) have t: "take ?n (u_calls u1) = u_calls u @ [PhantomRemoveByInfoPtr (u_Info u)]"
    by (simp add: afterRemoval_def)
  then have "length (take ?n (u_calls u1)) = ?n" by simp
  then have l: "?n \<le> length (u_calls u1)" by (simp add: min_def split: if_splits)
  then have "take ?n (u_calls u1 @ evs) = take ?n (u_calls u1)" by simp
  with t evs show ?thesis by (simp only: afterRemoval_def)
qed

lemma callsAdded_call: "callsAdded u (call ev u)"
  by (simp add: callsAdded_iff)

lemma callsAdded_setPart: "callsAdded u (setPart k p u)"
  by (simp add: callsAdded_iff)

lemma callsAdded_abort: "callsAdded u (s3AbortMultipartUpload u)"
  by (simp add: callsAdded_iff)

lemma callsAdded_cancel: "callsAdded u (fst (cancelAddingParts u))"
  by (simp add: callsAdded_iff)

lemma callsAdded_Done: "uploadGroup_Done u = Ret u' \<Longrightarrow> callsAdded u u'"
  by (auto simp add: uploadGroup_Done_def callsAdded_iff split: if_splits)

lemma callsAdded_s3UploadPart: "s3UploadPart env u part = Ret (u', r) \<Longrightarrow> callsAdded u u'"
  by (auto simp add: s3UploadPart_def Let_def callsAdded_iff
      split: option.splits sum.splits if_splits)

lemma callsAdded_uploadPart:
  assumes "uploadPart env u k = Ret u'"
  shows "callsAdded u u'"
proof -
  let ?u = "u\<lparr>u_inflight := remove1 k (u_inflight u)\<rparr>"
  have a: "callsAdded u ?u" by (simp add: callsAdded_iff)
  from assms have k: "k < length (u_parts u)"
    by (auto simp add: uploadPart_def Let_def split: if_splits)
  with assms obtain part where part: "u_parts u ! k = Some part"
    by (auto simp add: uploadPart_def Let_def split: if_splits option.splits)
  show ?thesis
  proof (cases "part_state part = S3PartUploadStateFull")
    case False
    with assms k part have "uploadGroup_Done ?u = Ret u'"
      by (auto simp add: uploadPart_def Let_def split: if_splits)
    from a callsAdded_Done [OF this] show ?thesis by (rule callsAdded_trans)
  next
    case True
    with assms k part obtain u2 err where s: "s3UploadPart env ?u part = Ret (u2, err)"
      by (auto simp add: uploadPart_def Let_def split: go.splits)
    let ?u3 = "call (PoolPut (part_partNumber part)) u2"
    from callsAdded_s3UploadPart [OF s] callsAdded_call [of u2 "PoolPut (part_partNumber part)"]
    have b: "callsAdded ?u ?u3" by (rule callsAdded_trans)
    show ?thesis
    proof (cases err)
      case None
      with assms k part True s have d: "uploadGroup_Done (setPart k (part\<lparr>part_state := S3PartUploadStateSent\<rparr>) ?u3) = Ret u'"
        by (simp add: uploadPart_def Let_def)
      have "callsAdded ?u3 (setPart k (part\<lparr>part_state := S3PartUploadStateSent\<rparr>) ?u3)"
        by (rule callsAdded_setPart)
      from this callsAdded_Done [OF d] have "callsAdded ?u3 u'" by (rule callsAdded_trans)
      with b have "callsAdded ?u u'" by (rule callsAdded_trans)
      with a show ?thesis by (rule callsAdded_trans)
    next
      case (Some e)
      with assms k part True s have d: "uploadGroup_Done (seterr e (setPart k (part\<lparr>part_state := S3PartUploadErrorSending\<rparr>) ?u3)) = Ret u'"
        by (simp add: uploadPart_def Let_def)
      have "callsAdded ?u3 (seterr e (setPart k (part\<lparr>part_state := S3PartUploadErrorSending\<rparr>) ?u3))"
        by (simp add: callsAdded_iff seterr_def)
      from this callsAdded_Done [OF d] have "callsAdded ?u3 u'" by (rule callsAdded_trans)
      with b have "callsAdded ?u u'" by (rule callsAdded_trans)
      with a show ?thesis by (rule callsAdded_trans)
    qed
  qed
qed

lemma callsAdded_drain: "drain env u ks = Ret u' \<Longrightarrow> callsAdded u u'"
proof (induction ks arbitrary: u)
  case Nil
  then show ?case by (simp add: callsAdded_refl)
next
  case (Cons k ks)
  from Cons.prems obtain u1 where u1: "uploadPart env u k = Ret u1" "drain env u1 ks = Ret u'"
    by (auto split: go.splits)
  from callsAdded_uploadPart [OF u1(1)] Cons.IH [OF u1(2)] show ?case by (rule callsAdded_trans)
qed

lemma callsAdded_end: "uploadPart_end u k e = Ret u' \<Longrightarrow> callsAdded u u'"
  by (auto simp add: uploadPart_end_def seterr_def uploadGroup_Done_def callsAdded_iff split: if_splits)

lemma callsAdded_endAll: "endAll u ws = Ret u' \<Longrightarrow> callsAdded u u'"
proof (induction ws arbitrary: u)
  case Nil
  then show ?case by (simp add: callsAdded_refl)
next
  case (Cons w ws)
  obtain k e where w: "w = (k, e)" by (cases w)
  from Cons.prems w obtain u1 where u1: "uploadPart_end u k e = Ret u1" "endAll u1 ws = Ret u'"
    by (auto split: go.splits)
  from callsAdded_end [OF u1(1)] Cons.IH [OF u1(2)] show ?case by (rule callsAdded_trans)
qed

lemma callsAdded_Wait: "uploadGroup_Wait env u = Ret u' \<Longrightarrow> callsAdded u u'"
proof -
  assume a: "uploadGroup_Wait env u = Ret u'"
  then obtain u0 where u0: "endAll u (u_inSeterr u) = Ret u0" "drain env u0 (u_inflight u0) = Ret u'"
    by (auto simp add: uploadGroup_Wait_def split: go.splits if_splits)
  from callsAdded_endAll [OF u0(1)] callsAdded_drain [OF u0(2)] show ?thesis
    by (rule callsAdded_trans)
qed

lemma callsAdded_enqueueUpload:
  assumes "enqueueUpload env u k = Ret (u', r)"
  shows "callsAdded u u'"
proof -
  from enqueueUpload_calls [OF assms] obtain evs where evs: "u_calls u' = u_calls u @ evs" by blast
  from assms have "u_PhantomObjectMap u' = u_PhantomObjectMap u \<and> u_Info u' = u_Info u"
  proof (cases rule: enqueueUpload_cases)
    case (already part)
    then show ?thesis by simp
  next
    case (refused part e)
    from refused(5) show ?thesis by (cases rule: s3CreateMultipartUpload_cases) simp_all
  next
    case (sent part u1)
    from sent(4) have "u_PhantomObjectMap u1 = u_PhantomObjectMap u \<and> u_Info u1 = u_Info u"
      by (auto split: if_splits elim!: s3CreateMultipartUpload_cases)
    with sent(6) show ?thesis by simp
  next
    case (cancelled part u1)
    from cancelled(4) have "u_PhantomObjectMap u1 = u_PhantomObjectMap u \<and> u_Info u1 = u_Info u"
      by (auto split: if_splits elim!: s3CreateMultipartUpload_cases)
    with cancelled(6) show ?thesis by simp
  qed
  with evs show ?thesis by (simp add: callsAdded_iff)
qed

lemma callsAdded_closeFail: "closeFail u e = Ret (u', r) \<Longrightarrow> callsAdded u u'"
proof -
  assume "closeFail u e = Ret (u', r)"
  then have "u' = fst (cancelAddingParts (s3AbortMultipartUpload u))"
    by (auto simp add: closeFail_def closePartsInStateAdding_def split: if_splits prod.splits)
  with callsAdded_trans [OF callsAdded_abort [of u] callsAdded_cancel [of "s3AbortMultipartUpload u"]]
  show ?thesis by simp
qed


lemma callsAdded_closeSingle:
  assumes "closeSingle env u = Ret (u', r)"
  shows "callsAdded u u'"
proof -
  from assms obtain part where part: "u_parts u ! 0 = Some part"
    by (auto simp add: closeSingle_def split: option.splits)
  show ?thesis
  proof (cases "getContent part")
    case (Inl e)
    let ?u1 = "setPart 0 (part\<lparr>part_state := S3PartUploadErrorSending\<rparr>)
                  (call (PoolPut (part_partNumber part)) u)"
    from assms part Inl have "closeFail ?u1 e = Ret (u', r)" by (simp add: closeSingle_def)
    from callsAdded_closeFail [OF this] have "callsAdded ?u1 u'" .
    moreover have "callsAdded u ?u1" by (simp add: callsAdded_iff)
    ultimately show ?thesis by (rule callsAdded_trans [rotated])
  next
    case (Inr content')
    let ?u2 = "call (PoolPut (part_partNumber part)) (call (PutObject content') u)"
    have a: "callsAdded u ?u2" by (simp add: callsAdded_iff)
    show ?thesis
    proof (cases "w_PutObject env (u_calls u) content'")
      case None
      with assms part Inr have "u' = setPart 0 (part\<lparr>part_state := S3PartUploadStateSent\<rparr>) ?u2"
        by (simp add: closeSingle_def s3PutObject_def Let_def)
      then show ?thesis by (simp add: callsAdded_iff)
    next
      case (Some e)
      let ?u3 = "setPart 0 (part\<lparr>part_state := S3PartUploadErrorSending\<rparr>) ?u2"
      from Some assms part Inr have "closeFail ?u3 e = Ret (u', r)"
        by (simp add: closeSingle_def s3PutObject_def Let_def)
      from callsAdded_closeFail [OF this] have "callsAdded ?u3 u'" .
      moreover have "callsAdded u ?u3" by (simp add: callsAdded_iff)
      ultimately show ?thesis by (rule callsAdded_trans [rotated])
    qed
  qed
qed

lemma closeMultipart_cases:
  assumes "closeMultipart env u = Ret (u', r)"
  obtains
    (enqueue_failed) u1 u2 e where
      "enqueueUpload env u (length (u_parts u) - 1) = Ret (u1, Some e)"
      "uploadGroup_Wait env u1 = Ret u2" "closeFail u2 e = Ret (u', r)"
  | (pending) u1 u2 where
      "enqueueUpload env u (length (u_parts u) - 1) = Ret (u1, None)"
      "uploadGroup_Wait env u1 = Ret u2" "\<not> heldInSeterr u2"
      "0 < snd (cancelAddingParts u2)"
      "closeFail (fst (cancelAddingParts u2)) (ErrPendingParts (snd (cancelAddingParts u2))) = Ret (u', r)"
  | (stored) u1 u2 e where
      "enqueueUpload env u (length (u_parts u) - 1) = Ret (u1, None)"
      "uploadGroup_Wait env u1 = Ret u2" "\<not> heldInSeterr u2"
      "\<not> 0 < snd (cancelAddingParts u2)" "u_err u2 = Some e"
      "closeFail (fst (cancelAddingParts u2)) e = Ret (u', r)"
  | (completed) u1 u2 where
      "enqueueUpload env u (length (u_parts u) - 1) = Ret (u1, None)"
      "uploadGroup_Wait env u1 = Ret u2" "\<not> heldInSeterr u2"
      "\<not> 0 < snd (cancelAddingParts u2)" "u_err u2 = None"
      "s3CompleteMultipartUpload env (fst (cancelAddingParts u2)) = Ret (u', None)" "r = None"
  | (refused) u1 u2 u4 e where
      "enqueueUpload env u (length (u_parts u) - 1) = Ret (u1, None)"
      "uploadGroup_Wait env u1 = Ret u2" "\<not> heldInSeterr u2"
      "\<not> 0 < snd (cancelAddingParts u2)" "u_err u2 = None"
      "s3CompleteMultipartUpload env (fst (cancelAddingParts u2)) = Ret (u4, Some e)"
      "closeFail u4 e = Ret (u', r)"
proof -
  from assms have ne: "u_parts u \<noteq> []" by (auto simp add: closeMultipart_def split: if_splits)
  with assms obtain u1 err where q: "enqueueUpload env u (length (u_parts u) - 1) = Ret (u1, err)"
    by (auto simp add: closeMultipart_def split: go.splits)
  with assms ne obtain u2 where w: "uploadGroup_Wait env u1 = Ret u2"
    by (auto simp add: closeMultipart_def split: go.splits)
  let ?c = "cancelAddingParts u2"
  have cm: "closeMultipart env u =
     (case err of
        Some e \<Rightarrow> closeFail u2 e
      | None \<Rightarrow>
          (case closePartsInStateAdding u2 of
             Panic \<Rightarrow> Panic
           | Blocked \<Rightarrow> Blocked
           | Ret (u3, pending) \<Rightarrow>
               if pending > 0 then closeFail u3 (ErrPendingParts pending)
               else
                 (case u_err u3 of
                    Some e \<Rightarrow> closeFail u3 e
                  | None \<Rightarrow>
                      (case s3CompleteMultipartUpload env u3 of
                         Panic \<Rightarrow> Panic
                       | Blocked \<Rightarrow> Blocked
                       | Ret (u4, None) \<Rightarrow> Ret (u4, None)
                       | Ret (u4, Some e) \<Rightarrow> closeFail u4 e))))"
    using ne q w by (simp add: closeMultipart_def)
  show ?thesis
  proof (cases err)
    case (Some e)
    with assms cm q w show ?thesis by (intro enqueue_failed [of u1 e u2]) simp_all
  next
    case None
    with assms cm have nh: "\<not> heldInSeterr u2"
      by (auto simp add: closePartsInStateAdding_def split: if_splits)
    then have cp: "closePartsInStateAdding u2 = Ret (fst ?c, snd ?c)"
      by (simp only: closePartsInStateAdding_def if_False prod.collapse)
    show ?thesis
    proof (cases "0 < snd ?c")
      case True
      with assms cm None cp have "closeFail (fst ?c) (ErrPendingParts (snd ?c)) = Ret (u', r)" by simp
      with q w nh True None show ?thesis by (intro pending [of u1 u2]) simp_all
    next
      case False
      show ?thesis
      proof (cases "u_err u2")
        case (Some e)
        with assms cm None cp False have "closeFail (fst ?c) e = Ret (u', r)" by simp
        with q w nh False None Some show ?thesis by (intro stored [of u1 u2 e]) simp_all
      next
        case noerr: None
        with assms cm None cp False obtain u4 r4 where
          c: "s3CompleteMultipartUpload env (fst ?c) = Ret (u4, r4)"
          by (auto split: go.splits)
        show ?thesis
        proof (cases r4)
          case None
          with assms cm \<open>err = None\<close> cp False noerr c have "u' = u4" "r = None" by simp_all
          with q w nh False \<open>err = None\<close> noerr c None show ?thesis
            by (intro completed [of u1 u2]) simp_all
        next
          case (Some e)
          with assms cm \<open>err = None\<close> cp False noerr c have "closeFail u4 e = Ret (u', r)" by simp
          with q w nh False \<open>err = None\<close> noerr c Some show ?thesis
            by (intro refused [of u1 u2 u4 e]) simp_all
        qed
      qed
    qed
  qed
qed

lemma callsAdded_complete:
  "s3CompleteMultipartUpload env u = Ret (u', r) \<Longrightarrow> callsAdded u u'"
  by (auto simp add: s3CompleteMultipartUpload_def callsAdded_iff split: option.splits)

lemma callsAdded_closeMultipart:
  assumes "closeMultipart env u = Ret (u', r)"
  shows "callsAdded u u'"
  using assms
proof (cases rule: closeMultipart_cases)
  case (enqueue_failed u1 u2 e)
  from callsAdded_enqueueUpload [OF enqueue_failed(1)] callsAdded_Wait [OF enqueue_failed(2)]
  have "callsAdded u u2" by (rule callsAdded_trans)
  from this callsAdded_closeFail [OF enqueue_failed(3)] show ?thesis by (rule callsAdded_trans)
next
  case (pending u1 u2)
  from callsAdded_enqueueUpload [OF pending(1)] callsAdded_Wait [OF pending(2)]
  have "callsAdded u u2" by (rule callsAdded_trans)
  from this callsAdded_cancel [of u2] have "callsAdded u (fst (cancelAddingParts u2))"
    by (rule callsAdded_trans)
  from this callsAdded_closeFail [OF pending(5)] show ?thesis by (rule callsAdded_trans)
next
  case (stored u1 u2 e)
  from callsAdded_enqueueUpload [OF stored(1)] callsAdded_Wait [OF stored(2)]
  have "callsAdded u u2" by (rule callsAdded_trans)
  from this callsAdded_cancel [of u2] have "callsAdded u (fst (cancelAddingParts u2))"
    by (rule callsAdded_trans)
  from this callsAdded_closeFail [OF stored(6)] show ?thesis by (rule callsAdded_trans)
next
  case (completed u1 u2)
  from callsAdded_enqueueUpload [OF completed(1)] callsAdded_Wait [OF completed(2)]
  have "callsAdded u u2" by (rule callsAdded_trans)
  from this callsAdded_cancel [of u2] have "callsAdded u (fst (cancelAddingParts u2))"
    by (rule callsAdded_trans)
  from this callsAdded_complete [OF completed(6)] show ?thesis by (rule callsAdded_trans)
next
  case (refused u1 u2 u4 e)
  from callsAdded_enqueueUpload [OF refused(1)] callsAdded_Wait [OF refused(2)]
  have "callsAdded u u2" by (rule callsAdded_trans)
  from this callsAdded_cancel [of u2] have "callsAdded u (fst (cancelAddingParts u2))"
    by (rule callsAdded_trans)
  from this callsAdded_complete [OF refused(6)] have "callsAdded u u4" by (rule callsAdded_trans)
  from this callsAdded_closeFail [OF refused(7)] show ?thesis by (rule callsAdded_trans)
qed

lemma Close_removed:
  assumes "Close env u = Ret (u', r)"
  shows "callsAdded ((call (PhantomRemoveByInfoPtr (u_Info u)) u)
                \<lparr>u_PhantomObjectMap := RemoveByInfoPtr (u_PhantomObjectMap u) (u_Info u)\<rparr>) u'"
proof -
  let ?u = "(call (PhantomRemoveByInfoPtr (u_Info u)) u)
                \<lparr>u_PhantomObjectMap := RemoveByInfoPtr (u_PhantomObjectMap u) (u_Info u)\<rparr>"
  show ?thesis
  proof (cases "u_err u")
    case (Some e)
    with assms have "closeFail ?u e = Ret (u', r)" by (simp add: Close_def Let_def)
    then show ?thesis by (rule callsAdded_closeFail)
  next
    case None
    show ?thesis
    proof (cases "length (u_parts u) = 1 \<and> u_multiPartUploadID u = None")
      case True
      with assms None have "closeSingle env ?u = Ret (u', r)" by (simp add: Close_def Let_def)
      then show ?thesis by (rule callsAdded_closeSingle)
    next
      case False
      with assms None have "closeMultipart env ?u = Ret (u', r)" by (auto simp add: Close_def Let_def)
      then show ?thesis by (rule callsAdded_closeMultipart)
    qed
  qed
qed


lemma enqueueUpload_answers:
  assumes c: "w_CreateMultipartUpload env' = w_CreateMultipartUpload env"
    and d: "w_ctxDone env' = w_ctxDone env"
  shows "enqueueUpload env' u k = enqueueUpload env u k"
  unfolding enqueueUpload_def s3CreateMultipartUpload_def c d ..

lemma enqueueUpload_other_answers:
  "enqueueUpload (env\<lparr>w_PutObject := f, w_CompleteMultipartUpload := g\<rparr>) u k = enqueueUpload env u k"
  by (rule enqueueUpload_answers) simp_all

lemma uploadPart_answers:
  assumes c: "w_UploadPart env' = w_UploadPart env"
  shows "uploadPart env' u k = uploadPart env u k"
  unfolding uploadPart_def s3UploadPart_def c ..

lemma uploadPart_other_answers:
  "uploadPart (env\<lparr>w_PutObject := f, w_CompleteMultipartUpload := g\<rparr>) u k = uploadPart env u k"
  by (rule uploadPart_answers) simp

lemma drain_other_answers:
  "drain (env\<lparr>w_PutObject := f, w_CompleteMultipartUpload := g\<rparr>) u ks = drain env u ks"
proof (induction ks arbitrary: u)
  case Nil
  show ?case by simp
next
  case (Cons k ks)
  show ?case
    unfolding drain.simps uploadPart_other_answers
    by (cases "uploadPart env u k") (simp_all add: Cons.IH)
qed

lemma uploadGroup_Wait_other_answers:
  "uploadGroup_Wait (env\<lparr>w_PutObject := f, w_CompleteMultipartUpload := g\<rparr>) u = uploadGroup_Wait env u"
  unfolding uploadGroup_Wait_def drain_other_answers ..

lemma closeSingle_answers:
  assumes c: "w_PutObject env' (u_calls u) = w_PutObject env (u_calls u)"
  shows "closeSingle env' u = closeSingle env u"
  unfolding closeSingle_def s3PutObject_def c ..

lemma closeSingle_other_answers:
  assumes "\<forall>c. f (u_calls u) c = w_PutObject env (u_calls u) c"
  shows "closeSingle (env\<lparr>w_PutObject := f, w_CompleteMultipartUpload := g\<rparr>) u = closeSingle env u"
  using assms by (intro closeSingle_answers) auto

lemma s3CompleteMultipartUpload_answers:
  assumes c: "w_CompleteMultipartUpload env' (u_calls u) = w_CompleteMultipartUpload env (u_calls u)"
  shows "s3CompleteMultipartUpload env' u = s3CompleteMultipartUpload env u"
  unfolding s3CompleteMultipartUpload_def c ..

lemma s3CompleteMultipartUpload_other_answers:
  assumes "\<forall>ps. g (u_calls u) ps = w_CompleteMultipartUpload env (u_calls u) ps"
  shows "s3CompleteMultipartUpload (env\<lparr>w_PutObject := f, w_CompleteMultipartUpload := g\<rparr>) u
       = s3CompleteMultipartUpload env u"
  using assms by (intro s3CompleteMultipartUpload_answers) auto

lemma closeMultipart_other_answers:
  assumes "\<forall>tr ps. afterRemoval u0 tr \<longrightarrow> g tr ps = w_CompleteMultipartUpload env tr ps"
    and "afterRemoval u0 (u_calls u)"
  shows "closeMultipart (env\<lparr>w_PutObject := f, w_CompleteMultipartUpload := g\<rparr>) u = closeMultipart env u"
proof (cases "u_parts u = []")
  case True
  then show ?thesis by (simp add: closeMultipart_def)
next
  case False
  let ?env = "env\<lparr>w_PutObject := f, w_CompleteMultipartUpload := g\<rparr>"
  show ?thesis
  proof (cases "enqueueUpload env u (length (u_parts u) - 1)")
    case Panic
    with False show ?thesis by (simp add: closeMultipart_def enqueueUpload_other_answers)
  next
    case Blocked
    with False show ?thesis by (simp add: closeMultipart_def enqueueUpload_other_answers)
  next
    case (Ret res)
    obtain u1 err where res: "res = (u1, err)" by (cases res)
    note q = Ret [unfolded res]
    show ?thesis
    proof (cases "uploadGroup_Wait env u1")
      case Panic
      with False q show ?thesis
        by (simp add: closeMultipart_def enqueueUpload_other_answers uploadGroup_Wait_other_answers)
    next
      case Blocked
      with False q show ?thesis
        by (simp add: closeMultipart_def enqueueUpload_other_answers uploadGroup_Wait_other_answers)
    next
      case (Ret u2)
      from callsAdded_enqueueUpload [OF q] callsAdded_Wait [OF Ret]
      have "callsAdded u u2" by (rule callsAdded_trans)
      from this callsAdded_cancel [of u2] have "callsAdded u (fst (cancelAddingParts u2))"
        by (rule callsAdded_trans)
      from callsAdded_afterRemoval [OF this assms(2)] assms(1)
      have "\<forall>ps. g (u_calls (fst (cancelAddingParts u2))) ps
          = w_CompleteMultipartUpload env (u_calls (fst (cancelAddingParts u2))) ps"
        by blast
      then have c: "s3CompleteMultipartUpload (env\<lparr>w_PutObject := f, w_CompleteMultipartUpload := g\<rparr>)
            (fst (cancelAddingParts u2))
          = s3CompleteMultipartUpload env (fst (cancelAddingParts u2))"
        by (rule s3CompleteMultipartUpload_other_answers)
      have cp: "closePartsInStateAdding u2 =
          (if heldInSeterr u2 then Blocked
           else Ret (fst (cancelAddingParts u2), snd (cancelAddingParts u2)))"
        by (simp only: closePartsInStateAdding_def prod.collapse)
      show ?thesis
        using False q Ret c
        unfolding closeMultipart_def enqueueUpload_other_answers uploadGroup_Wait_other_answers
        by (cases err; cases "cancelAddingParts u2")
          (simp_all add: closePartsInStateAdding_def split: option.splits)
    qed
  qed
qed

lemma Close_other_answers:
  assumes "\<forall>tr c. afterRemoval u tr \<longrightarrow> f tr c = w_PutObject env tr c"
    and "\<forall>tr ps. afterRemoval u tr \<longrightarrow> g tr ps = w_CompleteMultipartUpload env tr ps"
  shows "Close (env\<lparr>w_PutObject := f, w_CompleteMultipartUpload := g\<rparr>) u = Close env u"
proof -
  let ?u = "(call (PhantomRemoveByInfoPtr (u_Info u)) u)
                \<lparr>u_PhantomObjectMap := RemoveByInfoPtr (u_PhantomObjectMap u) (u_Info u)\<rparr>"
  have a: "afterRemoval u (u_calls ?u)" by (simp add: afterRemoval_def)
  with assms(1) have "\<forall>c. f (u_calls ?u) c = w_PutObject env (u_calls ?u) c" by blast
  then have s: "closeSingle (env\<lparr>w_PutObject := f, w_CompleteMultipartUpload := g\<rparr>) ?u
      = closeSingle env ?u"
    by (rule closeSingle_other_answers)
  from assms(2) a have m: "closeMultipart (env\<lparr>w_PutObject := f, w_CompleteMultipartUpload := g\<rparr>) ?u
      = closeMultipart env ?u"
    by (rule closeMultipart_other_answers)
  show ?thesis unfolding Close_def Let_def s m ..
qed

lemma RemoveByInfoPtr_gone: "\<forall>(key, info) \<in> set (RemoveByInfoPtr m i). info \<noteq> i"
  by (auto simp add: RemoveByInfoPtr_def)

text \<open>
  Claim C9. \<open>Close\<close> removes the phantom entry of the writer before anything else. In
  every execution that returns, the removal is the first call \<open>Close\<close> has made, the
  phantom map is the one before the call without the entries of the writer's info, and
  no entry of it carries that info. And in every execution, also one that never returns,
  the answers of PutObject and CompleteMultipartUpload are only asked for at a trace in
  which the removal is recorded: other answers at all other traces change nothing in
  what \<open>Close\<close> does, so no finalizing request is issued before the removal.
\<close>

theorem Close_removes_phantom_entry_first:
  "(\<forall>u' r. Close env u = Ret (u', r) \<longrightarrow>
      (\<exists>rest. u_calls u' = u_calls u @ PhantomRemoveByInfoPtr (u_Info u) # rest) \<and>
      u_PhantomObjectMap u' = RemoveByInfoPtr (u_PhantomObjectMap u) (u_Info u) \<and>
      (\<forall>(key, info) \<in> set (u_PhantomObjectMap u'). info \<noteq> u_Info u))
   \<and> (\<forall>f g. (\<forall>tr c. afterRemoval u tr \<longrightarrow> f tr c = w_PutObject env tr c) \<and>
            (\<forall>tr ps. afterRemoval u tr \<longrightarrow> g tr ps = w_CompleteMultipartUpload env tr ps) \<longrightarrow>
        Close (env\<lparr>w_PutObject := f, w_CompleteMultipartUpload := g\<rparr>) u = Close env u)"
proof (intro conjI allI impI)
  fix u' r assume c: "Close env u = Ret (u', r)"
  from Close_removed [OF c] obtain evs where
    evs: "u_calls u' = (u_calls u @ [PhantomRemoveByInfoPtr (u_Info u)]) @ evs"
    and m: "u_PhantomObjectMap u' = RemoveByInfoPtr (u_PhantomObjectMap u) (u_Info u)"
    by (auto simp add: callsAdded_iff)
  from evs show "\<exists>rest. u_calls u' = u_calls u @ PhantomRemoveByInfoPtr (u_Info u) # rest" by simp
  from m show "u_PhantomObjectMap u' = RemoveByInfoPtr (u_PhantomObjectMap u) (u_Info u)" .
  from m RemoveByInfoPtr_gone [of "u_PhantomObjectMap u" "u_Info u"]
  show "\<forall>(key, info) \<in> set (u_PhantomObjectMap u'). info \<noteq> u_Info u" by simp
next
  fix f g
  assume "(\<forall>tr c. afterRemoval u tr \<longrightarrow> f tr c = w_PutObject env tr c) \<and>
            (\<forall>tr ps. afterRemoval u tr \<longrightarrow> g tr ps = w_CompleteMultipartUpload env tr ps)"
  then show "Close (env\<lparr>w_PutObject := f, w_CompleteMultipartUpload := g\<rparr>) u = Close env u"
    by (intro Close_other_answers) blast+
qed

theorem Close_removes_phantom_entry_first_witness:
  "Close ((okEnv 4)\<lparr>w_PutObject :=
             (\<lambda>tr c. if PhantomRemoveByInfoPtr 7 \<in> set tr then None
                      else Some (ErrUpstream ''phantom entry still listed'')),
           w_CompleteMultipartUpload :=
             (\<lambda>tr ps. if PhantomRemoveByInfoPtr 7 \<in> set tr then None
                       else Some (ErrUpstream ''phantom entry still listed''))\<rparr>)
     \<lparr>u_MaxObjectSize = 100, u_BufSize = 4, u_Info = 7, u_InfoSize = 3,
      u_completedParts = [],
      u_parts = [Some \<lparr>part_content = ''abc.'', part_partNumber = 1,
                         part_o = [True, True, True, False],
                         part_state = S3PartUploadStateAdding\<rparr>],
      u_multiPartUploadID = None, u_err = None, u_uploadGroup = 0,
      u_inflight = [], u_inSeterr = [], u_PhantomObjectMap = [(''k'', 7)],
      u_calls = [PoolGet]\<rparr>
   = Ret (\<lparr>u_MaxObjectSize = 100, u_BufSize = 4, u_Info = 7, u_InfoSize = 3,
      u_completedParts = [],
      u_parts = [Some \<lparr>part_content = ''abc.'', part_partNumber = 1,
                         part_o = [True, True, True, False],
                         part_state = S3PartUploadStateSent\<rparr>],
      u_multiPartUploadID = None, u_err = None, u_uploadGroup = 0,
      u_inflight = [], u_inSeterr = [], u_PhantomObjectMap = [],
      u_calls = [PoolGet, PhantomRemoveByInfoPtr 7, PutObject ''abc'', PoolPut 1]\<rparr>, None)"
proof -
  let ?U = "\<lparr>u_MaxObjectSize = 100, u_BufSize = 4, u_Info = 7, u_InfoSize = 3,
      u_completedParts = [],
      u_parts = [Some \<lparr>part_content = ''abc.'', part_partNumber = 1,
                         part_o = [True, True, True, False],
                         part_state = S3PartUploadStateAdding\<rparr>],
      u_multiPartUploadID = None, u_err = None, u_uploadGroup = 0,
      u_inflight = [], u_inSeterr = [], u_PhantomObjectMap = [(''k'', 7)],
      u_calls = [PoolGet]\<rparr>"
  let ?f = "\<lambda>(tr :: event list) (c :: string). if PhantomRemoveByInfoPtr 7 \<in> set tr then None
                      else Some (ErrUpstream ''phantom entry still listed'')"
  let ?g = "\<lambda>(tr :: event list) (ps :: CompletedPart option list).
                if PhantomRemoveByInfoPtr 7 \<in> set tr then None
                       else Some (ErrUpstream ''phantom entry still listed'')"
  have mem: "PhantomRemoveByInfoPtr 7 \<in> set tr" if "afterRemoval ?U tr" for tr
  proof -
    from that have "take 2 tr = [PoolGet, PhantomRemoveByInfoPtr 7]"
      by (simp add: afterRemoval_def eval_nat_numeral)
    then have "PhantomRemoveByInfoPtr 7 \<in> set (take 2 tr)" by simp
    then show ?thesis by (rule in_set_takeD)
  qed
  have h: "(\<forall>tr c. afterRemoval ?U tr \<longrightarrow> ?f tr c = w_PutObject (okEnv 4) tr c) \<and>
        (\<forall>tr ps. afterRemoval ?U tr \<longrightarrow> ?g tr ps = w_CompleteMultipartUpload (okEnv 4) tr ps)"
    using mem by (simp add: okEnv_def)
  have c: "Close (okEnv 4) ?U = Ret (\<lparr>u_MaxObjectSize = 100, u_BufSize = 4, u_Info = 7, u_InfoSize = 3,
      u_completedParts = [],
      u_parts = [Some \<lparr>part_content = ''abc.'', part_partNumber = 1,
                         part_o = [True, True, True, False],
                         part_state = S3PartUploadStateSent\<rparr>],
      u_multiPartUploadID = None, u_err = None, u_uploadGroup = 0,
      u_inflight = [], u_inSeterr = [], u_PhantomObjectMap = [],
      u_calls = [PoolGet, PhantomRemoveByInfoPtr 7, PutObject ''abc'', PoolPut 1]\<rparr>, None)"
    by code_simp
  have "Close ((okEnv 4)\<lparr>w_PutObject := ?f, w_CompleteMultipartUpload := ?g\<rparr>) ?U = Close (okEnv 4) ?U"
    by (rule Close_removes_phantom_entry_first
          [of "okEnv 4" ?U, THEN conjunct2, rule_format, of ?f ?g, OF h])
  with c show ?thesis by simp
qed

end
